theory Spec2Isabelle
  imports Main "HOL-Library.Word" "HOL-Library.Signed_Division"
begin

unbundle bit_operations_syntax

chapter \<open>A shallow embedding of the mold link editor's core\<close>

text \<open>
  The development follows the C++ sources: the utility header (ULEB128 coding, the
  concurrent map), the endian-explicit integer template, and the ELF engine's parser,
  resolver, garbage collector and layout passes. Machine integers are words of their
  width; every abort of the program (a failed \<open>assert\<close>, \<open>Fatal\<close>, an uncaught
  \<open>std::out_of_range\<close>) and every read outside a buffer is a value of an error type.
\<close>

type_synonym u8 = "8 word"
type_synonym u16 = "16 word"
type_synonym u32 = "32 word"
type_synonym u64 = "64 word"

section \<open>ULEB128 encoding and decoding\<close>

text \<open>
  \<^verbatim>\<open>
  inline void encode_uleb(std::vector<u8> &vec, u64 val) {
    do {
      u8 byte = val & 0x7f;
      val >>= 7;
      vec.push_back(val ? (byte | 0x80) : byte);
    } while (val);
  }
  \<close>
  The loop runs again exactly when the shifted value is non-zero, and then the value
  has become smaller.
\<close>

function encode_uleb :: "u8 list \<Rightarrow> u64 \<Rightarrow> u8 list" where
  "encode_uleb vec val =
     (let byte = (ucast (val AND 0x7f) :: u8);
          val' = drop_bit 7 val
      in if val' \<noteq> 0 then encode_uleb (vec @ [byte OR 0x80]) val'
         else vec @ [byte])"
  by pat_completeness auto
termination
proof (relation "measure (\<lambda>(vec, val). unat val)")
  show "wf (measure (\<lambda>(vec, val). unat val))" by simp
next
  fix vec :: "u8 list" and val :: u64 and byte :: u8 and val' :: u64
  assume v: "val' = drop_bit 7 val" and nz: "val' \<noteq> 0"
  have e: "unat (drop_bit 7 val) = unat val div 128"
    unfolding unat_drop_bit_eq by (simp add: drop_bit_eq_div)
  from nz v have "unat (drop_bit 7 val) \<noteq> 0"
    by (simp add: unat_eq_0)
  with e have "unat val div 128 \<noteq> 0" by simp
  then have "0 < unat val" by (cases "unat val = 0") auto
  then have "unat val div 128 < unat val" by simp
  with e v show "((vec @ [byte OR 0x80], val'), (vec, val)) \<in> measure (\<lambda>(vec, val). unat val)"
    by simp
qed

text \<open>
  \<^verbatim>\<open>
  inline i64 write_uleb(u8 *buf, u64 val) {
    i64 i = 0;
    do {
      u8 byte = val & 0x7f;
      val >>= 7;
      buf[i++] = val ? (byte | 0x80) : byte;
    } while (val);
    return i;
  }
  \<close>
  The buffer is the list of bytes at \<open>buf\<close>; a write behind its end is an error.
\<close>

datatype uleb_error = OutOfBounds | ShiftTooLarge

function write_uleb_loop :: "u8 list \<Rightarrow> nat \<Rightarrow> u64 \<Rightarrow> uleb_error + (u8 list \<times> nat)" where
  "write_uleb_loop buf i val =
     (let byte = (ucast (val AND 0x7f) :: u8);
          val' = drop_bit 7 val
      in if length buf \<le> i then Inl OutOfBounds
         else if val' \<noteq> 0 then write_uleb_loop (buf[i := byte OR 0x80]) (i + 1) val'
         else Inr (buf[i := byte], i + 1))"
  by pat_completeness auto
termination
  by (relation "measure (\<lambda>(buf, i, val). length buf - i)") auto

definition write_uleb :: "u8 list \<Rightarrow> u64 \<Rightarrow> uleb_error + (u8 list \<times> nat)" where
  "write_uleb buf val = write_uleb_loop buf 0 val"

text \<open>
  \<^verbatim>\<open>
  inline u64 read_uleb(u8 *&buf) {
    u64 val = 0;
    u8 shift = 0;
    u8 byte;
    do {
      byte = *buf++;
      val |= (byte & 0x7f) << shift;
      shift += 7;
    } while (byte & 0x80);
    return val;
  }
  \<close>
  \<open>byte & 0x7f\<close> is an \<open>int\<close> (the \<open>u8\<close> is promoted), so the shift is a shift of a
  32-bit signed integer: in C++20 its result is the value modulo \<open>2 ^ 32\<close>, and a shift
  count of 32 or more is undefined (\<open>ShiftTooLarge\<close>). The \<open>int\<close> is then converted
  to \<open>u64\<close>, which extends its sign. The function returns the value and the advanced
  pointer, here the rest of the buffer.
\<close>

function read_uleb_loop :: "u8 list \<Rightarrow> u64 \<Rightarrow> u8 \<Rightarrow> uleb_error + (u64 \<times> u8 list)" where
  "read_uleb_loop buf val shift =
     (case buf of
        [] \<Rightarrow> Inl OutOfBounds
      | byte # buf' \<Rightarrow>
          if 32 \<le> unat shift then Inl ShiftTooLarge
          else
            let t = (push_bit (unat shift) (ucast (byte AND 0x7f) :: u32));
                val' = val OR (scast t :: u64);
                shift' = shift + 7
            in if byte AND 0x80 \<noteq> 0 then read_uleb_loop buf' val' shift'
               else Inr (val', buf'))"
  by pat_completeness auto
termination
  by (relation "measure (\<lambda>(buf, val, shift). length buf)") simp_all

definition read_uleb :: "u8 list \<Rightarrow> uleb_error + (u64 \<times> u8 list)" where
  "read_uleb buf = read_uleb_loop buf 0 0"

text \<open>
  Claim C5 (round trip of \<open>encode_uleb\<close> and \<open>read_uleb\<close> for every value below
  \<open>2 ^ 64\<close>) fails on the code at \<open>2 ^ 31\<close>: its encoding is the five bytes
  \<open>80 80 80 80 08\<close>, the fifth is shifted by 28 as an \<open>int\<close>, which gives the most
  negative \<open>int\<close>, and the sign extension sets the upper 32 bits of the result.
\<close>

theorem read_uleb_encode_uleb_2_31:
  "encode_uleb [] (2 ^ 31) = [0x80, 0x80, 0x80, 0x80, 0x08] \<and>
   read_uleb (encode_uleb [] (2 ^ 31)) = Inr (0xFFFFFFFF80000000, [])"
  by (simp add: read_uleb_def)

section \<open>Endian-explicit integers\<close>

text \<open>
  \<^verbatim>\<open>
  enum ByteOrder { LITTLE, BIG };

  template <ByteOrder X, typename T, int SIZE>
  class Int {
    operator T() const {
      T ret = 0;
      for (int i = 0; i < SIZE; i++) {
        if (X == LITTLE)
          ret |= (u64)val[i] << (i * 8);
        else
          ret = (ret << 8) | val[i];
      }
      return ret;
    }

    Int &operator=(T x) {
      for (int i = 0; i < SIZE; i++) {
        if (X == LITTLE)
          val[i] = x >> (i * 8);
        else
          val[SIZE - 1 - i] = x >> (i * 8);
      }
      return *this;
    }
    u8 val[SIZE];
  };
  \<close>
  A value of \<open>T\<close> is a word of the width of \<open>T\<close>, together with the signedness of
  \<open>T\<close>. C++ computes \<open>x >> n\<close> and \<open>ret << 8\<close> in the promoted type of \<open>T\<close>
  (\<open>int\<close> for the 16-bit types, \<open>T\<close> itself otherwise): the type variable \<open>'p\<close> is the
  promoted type and \<open>psg\<close> tells whether it is signed. \<open>convert sg\<close> is the conversion
  of an integer of signedness \<open>sg\<close> to another integer type (the value modulo the
  width of the target); \<open>shift_right\<close> is \<open>>>\<close>, arithmetic on a signed operand.
  The object is the array \<open>val\<close>, a list of \<open>SIZE\<close> bytes.
\<close>

datatype ByteOrder = LITTLE | BIG

definition convert :: "bool \<Rightarrow> 'a::len word \<Rightarrow> 'b::len word" where
  "convert sg x = (if sg then scast x else ucast x)"

definition shift_right :: "bool \<Rightarrow> 'a::len word \<Rightarrow> nat \<Rightarrow> 'a word" where
  "shift_right sg x n = (if sg then signed_drop_bit n x else drop_bit n x)"

definition Int_assign ::
  "'p::len itself \<Rightarrow> bool \<Rightarrow> bool \<Rightarrow> ByteOrder \<Rightarrow> nat \<Rightarrow> u8 list \<Rightarrow> 'a::len word \<Rightarrow> u8 list" where
  "Int_assign P sg psg X SIZE val x =
     fold (\<lambda>i v.
        let b = (ucast (shift_right psg (convert sg x :: 'p word) (i * 8)) :: u8)
        in if X = LITTLE then v[i := b] else v[SIZE - 1 - i := b])
       [0..<SIZE] val"

definition Int_value ::
  "'p::len itself \<Rightarrow> bool \<Rightarrow> ByteOrder \<Rightarrow> nat \<Rightarrow> u8 list \<Rightarrow> 'a::len word" where
  "Int_value P sg X SIZE val =
     fold (\<lambda>i ret.
        if X = LITTLE
        then ucast ((convert sg ret :: u64) OR push_bit (i * 8) (ucast (val ! i) :: u64))
        else ucast (push_bit 8 (convert sg ret :: 'p word) OR (ucast (val ! i) :: 'p word)))
       [0..<SIZE] 0"

text \<open>
  The instantiated classes:
  \<^verbatim>\<open>
  class i16_<X> : public Int<X, i16, 2>     class u16_<X> : public Int<X, u16, 2>
  class i32_<X> : public Int<X, i32, 4>     class u24_<X> : public Int<X, u32, 3>
  class i64_<X> : public Int<X, i64, 8>     class u32_<X> : public Int<X, u32, 4>
                                            class u64_<X> : public Int<X, u64, 8>
  \<close>
\<close>

definition i16_assign :: "ByteOrder \<Rightarrow> u8 list \<Rightarrow> 16 word \<Rightarrow> u8 list" where
  "i16_assign X = Int_assign TYPE(32) True True X 2"

definition i16_value :: "ByteOrder \<Rightarrow> u8 list \<Rightarrow> 16 word" where
  "i16_value X = Int_value TYPE(32) True X 2"

definition i32_assign :: "ByteOrder \<Rightarrow> u8 list \<Rightarrow> 32 word \<Rightarrow> u8 list" where
  "i32_assign X = Int_assign TYPE(32) True True X 4"

definition i32_value :: "ByteOrder \<Rightarrow> u8 list \<Rightarrow> 32 word" where
  "i32_value X = Int_value TYPE(32) True X 4"

definition i64_assign :: "ByteOrder \<Rightarrow> u8 list \<Rightarrow> 64 word \<Rightarrow> u8 list" where
  "i64_assign X = Int_assign TYPE(64) True True X 8"

definition i64_value :: "ByteOrder \<Rightarrow> u8 list \<Rightarrow> 64 word" where
  "i64_value X = Int_value TYPE(64) True X 8"

definition u16_assign :: "ByteOrder \<Rightarrow> u8 list \<Rightarrow> u16 \<Rightarrow> u8 list" where
  "u16_assign X = Int_assign TYPE(32) False True X 2"

definition u16_value :: "ByteOrder \<Rightarrow> u8 list \<Rightarrow> u16" where
  "u16_value X = Int_value TYPE(32) False X 2"

definition u24_assign :: "ByteOrder \<Rightarrow> u8 list \<Rightarrow> u32 \<Rightarrow> u8 list" where
  "u24_assign X = Int_assign TYPE(32) False False X 3"

definition u24_value :: "ByteOrder \<Rightarrow> u8 list \<Rightarrow> u32" where
  "u24_value X = Int_value TYPE(32) False X 3"

definition u32_assign :: "ByteOrder \<Rightarrow> u8 list \<Rightarrow> u32 \<Rightarrow> u8 list" where
  "u32_assign X = Int_assign TYPE(32) False False X 4"

definition u32_value :: "ByteOrder \<Rightarrow> u8 list \<Rightarrow> u32" where
  "u32_value X = Int_value TYPE(32) False X 4"

definition u64_assign :: "ByteOrder \<Rightarrow> u8 list \<Rightarrow> u64 \<Rightarrow> u8 list" where
  "u64_assign X = Int_assign TYPE(64) False False X 8"

definition u64_value :: "ByteOrder \<Rightarrow> u8 list \<Rightarrow> u64" where
  "u64_value X = Int_value TYPE(64) False X 8"

subsection \<open>The stored bytes and the loops\<close>

lemma assign_byte:
  fixes x :: "'a::len word"
  assumes "8 * i + 8 \<le> LENGTH('a)" "LENGTH('a) \<le> LENGTH('p::len)"
  shows "(ucast (shift_right psg (convert sg x :: 'p word) (i * 8)) :: u8) = ucast (drop_bit (i * 8) x)"
  using assms
  by (intro bit_word_eqI) (auto simp: bit_simps convert_def shift_right_def)

lemma get_step_little:
  fixes ret :: "'a::len word" and b :: u8
  assumes "LENGTH('a) \<le> 64"
  shows "(ucast ((convert sg ret :: u64) OR push_bit n (ucast b :: u64)) :: 'a word)
         = ret OR push_bit n (ucast b)"
  using assms
  by (intro bit_word_eqI) (auto simp: bit_simps convert_def)

lemma get_step_big:
  fixes ret :: "'a::len word" and b :: u8
  assumes "LENGTH('a) \<le> LENGTH('p::len)"
  shows "(ucast (push_bit 8 (convert sg ret :: 'p word) OR (ucast b :: 'p word)) :: 'a word)
         = push_bit 8 ret OR ucast b"
  using assms
  by (intro bit_word_eqI) (auto simp: bit_simps convert_def)


lemma length_fold_update:
  "length (fold (\<lambda>i v. v[g i := f i]) xs v) = length v"
  by (induction xs arbitrary: v) auto

lemma fold_update_little:
  "j < length v \<Longrightarrow>
   fold (\<lambda>i v. v[i := f i]) [0..<k] v ! j = (if j < k then f j else v ! j)"
  by (induction k) (auto simp: nth_list_update length_fold_update less_Suc_eq)

lemma fold_update_big:
  "k \<le> S \<Longrightarrow> length v = S \<Longrightarrow> j < S \<Longrightarrow>
   fold (\<lambda>i v. v[S - Suc i := f i]) [0..<k] v ! j = (if S - Suc j < k then f (S - Suc j) else v ! j)"
proof (induction k)
  case 0 then show ?case by simp
next
  case (Suc k)
  have "S - Suc j = k \<longleftrightarrow> j = S - Suc k" using Suc.prems by auto
  with Suc show ?case
    by (auto simp: nth_list_update length_fold_update less_Suc_eq)
qed

lemma take_bit_step_little:
  fixes x :: "'a::len word"
  shows "take_bit (k * 8) x OR push_bit (k * 8) (ucast (ucast (drop_bit (k * 8) x) :: u8))
         = take_bit (Suc k * 8) x"
  by (intro bit_word_eqI) (auto simp: bit_simps)

lemma get_fold_little:
  fixes x :: "'a::len word"
  shows "fold (\<lambda>i ret. ret OR push_bit (i * 8) (ucast (ucast (drop_bit (i * 8) x) :: u8))) [0..<k] 0
         = take_bit (k * 8) x"
  by (induction k) (simp_all add: take_bit_step_little del: mult_Suc)


lemma take_bit_step_big:
  fixes x :: "'a::len word"
  assumes "k < S" "S * 8 \<le> LENGTH('a)"
  shows "push_bit 8 (drop_bit ((S - k) * 8) (take_bit (S * 8) x))
           OR ucast (ucast (drop_bit ((S - Suc k) * 8) x) :: u8)
         = drop_bit ((S - Suc k) * 8) (take_bit (S * 8) x)"
proof -
  from assms obtain m where m: "S - k = Suc m" "S - Suc k = m" "m < S"
    by (cases "S - k") auto
  have a: "Suc m * 8 + n - 8 = m * 8 + n" for n by simp
  show ?thesis
    unfolding m using assms(2) m(3)
    by (intro bit_word_eqI) (auto simp: bit_simps a simp del: mult_Suc)
qed

lemma get_fold_big:
  fixes x :: "'a::len word"
  assumes "k \<le> S" "S * 8 \<le> LENGTH('a)"
  shows "fold (\<lambda>i ret. push_bit 8 ret OR ucast (ucast (drop_bit ((S - Suc i) * 8) x) :: u8)) [0..<k] 0
         = drop_bit ((S - k) * 8) (take_bit (S * 8) x)"
  using assms
proof (induction k)
  case 0
  show ?case by (intro bit_word_eqI) (auto simp: bit_simps)
next
  case (Suc k)
  then show ?case by (simp add: take_bit_step_big del: mult_Suc)
qed

lemma Int_roundtrip_little:
  fixes x :: "'a::len word"
  assumes "length v = SIZE" "SIZE * 8 \<le> LENGTH('a)" "LENGTH('a) \<le> LENGTH('p::len)" "LENGTH('a) \<le> 64"
  shows "Int_value TYPE('p) sg LITTLE SIZE (Int_assign TYPE('p) sg psg LITTLE SIZE v x) = take_bit (SIZE * 8) x"
proof -
  let ?f = "\<lambda>i. (ucast (shift_right psg (convert sg x :: 'p word) (i * 8)) :: u8)"
  have nth: "Int_assign TYPE('p) sg psg LITTLE SIZE v x ! i = ucast (drop_bit (i * 8) x)" if "i < SIZE" for i
  proof -
    have "Int_assign TYPE('p) sg psg LITTLE SIZE v x ! i = ?f i"
      using that assms(1) by (simp add: Int_assign_def fold_update_little)
    also have "\<dots> = ucast (drop_bit (i * 8) x)"
      using that assms(2,3) by (intro assign_byte) auto
    finally show ?thesis .
  qed
  have "Int_value TYPE('p) sg LITTLE SIZE (Int_assign TYPE('p) sg psg LITTLE SIZE v x)
        = fold (\<lambda>i ret. ret OR push_bit (i * 8) (ucast (ucast (drop_bit (i * 8) x) :: u8))) [0..<SIZE] (0 :: 'a word)"
    unfolding Int_value_def
    by (rule fold_cong) (auto simp: nth get_step_little [OF assms(4)])
  then show ?thesis by (simp add: get_fold_little)
qed

lemma Int_roundtrip_big:
  fixes x :: "'a::len word"
  assumes "length v = SIZE" "SIZE * 8 \<le> LENGTH('a)" "LENGTH('a) \<le> LENGTH('p::len)"
  shows "Int_value TYPE('p) sg BIG SIZE (Int_assign TYPE('p) sg psg BIG SIZE v x) = take_bit (SIZE * 8) x"
proof -
  let ?f = "\<lambda>i. (ucast (shift_right psg (convert sg x :: 'p word) (i * 8)) :: u8)"
  have nth: "Int_assign TYPE('p) sg psg BIG SIZE v x ! i = ucast (drop_bit ((SIZE - Suc i) * 8) x)" if "i < SIZE" for i
  proof -
    have "Int_assign TYPE('p) sg psg BIG SIZE v x ! i = ?f (SIZE - Suc i)"
      using that assms(1) by (simp add: Int_assign_def fold_update_big)
    also have "\<dots> = ucast (drop_bit ((SIZE - Suc i) * 8) x)"
      using that assms(2,3) by (intro assign_byte) auto
    finally show ?thesis .
  qed
  have "Int_value TYPE('p) sg BIG SIZE (Int_assign TYPE('p) sg psg BIG SIZE v x)
        = fold (\<lambda>i ret. push_bit 8 ret OR ucast (ucast (drop_bit ((SIZE - Suc i) * 8) x) :: u8)) [0..<SIZE] (0 :: 'a word)"
    unfolding Int_value_def
    by (rule fold_cong) (auto simp: nth get_step_big [OF assms(3)])
  then show ?thesis using assms(2) by (simp add: get_fold_big)
qed

lemma Int_roundtrip_any:
  fixes x :: "'a::len word"
  assumes "length v = SIZE" "SIZE * 8 \<le> LENGTH('a)" "LENGTH('a) \<le> LENGTH('p::len)" "LENGTH('a) \<le> 64"
  shows "Int_value TYPE('p) sg X SIZE (Int_assign TYPE('p) sg psg X SIZE v x) = take_bit (SIZE * 8) x"
  using assms by (cases X) (simp_all add: Int_roundtrip_little Int_roundtrip_big)

text \<open>
  Claim C10: for both byte orders and every instantiated class, assigning \<open>x\<close> to the
  object and converting the object back to \<open>T\<close> gives \<open>x\<close> modulo \<open>2 ^ (8 * SIZE)\<close>:
  \<open>x\<close> itself for the six classes whose \<open>SIZE\<close> is the size of \<open>T\<close>, and the low 24
  bits of \<open>x\<close> for \<open>u24_\<close>. The lists \<open>v2\<close>, \<open>v3\<close>, \<open>v4\<close>, \<open>v8\<close> are the arrays
  \<open>val\<close> before the assignment, of any content.
\<close>

theorem Int_round_trip:
  assumes "length v2 = 2" and "length v3 = 3" and "length v4 = 4" and "length v8 = 8"
  shows "i16_value X (i16_assign X v2 a) = a \<and>
         u16_value X (u16_assign X v2 b) = b \<and>
         i32_value X (i32_assign X v4 c) = c \<and>
         u32_value X (u32_assign X v4 d) = d \<and>
         i64_value X (i64_assign X v8 e) = e \<and>
         u64_value X (u64_assign X v8 f) = f \<and>
         u24_value X (u24_assign X v3 g) = take_bit 24 g \<and>
         unat (u24_value X (u24_assign X v3 g)) = unat g mod 2 ^ 24"
proof -
  have "i16_value X (i16_assign X v2 a) = a"
    unfolding i16_value_def i16_assign_def
    using Int_roundtrip_any [where v = v2 and SIZE = 2 and x = a and 'p = 32] assms(1)
    by (simp add: take_bit_word_eq_self)
  moreover have "u16_value X (u16_assign X v2 b) = b"
    unfolding u16_value_def u16_assign_def
    using Int_roundtrip_any [where v = v2 and SIZE = 2 and x = b and 'p = 32] assms(1)
    by (simp add: take_bit_word_eq_self)
  moreover have "i32_value X (i32_assign X v4 c) = c"
    unfolding i32_value_def i32_assign_def
    using Int_roundtrip_any [where v = v4 and SIZE = 4 and x = c and 'p = 32] assms(3)
    by (simp add: take_bit_word_eq_self)
  moreover have "u32_value X (u32_assign X v4 d) = d"
    unfolding u32_value_def u32_assign_def
    using Int_roundtrip_any [where v = v4 and SIZE = 4 and x = d and 'p = 32] assms(3)
    by (simp add: take_bit_word_eq_self)
  moreover have "i64_value X (i64_assign X v8 e) = e"
    unfolding i64_value_def i64_assign_def
    using Int_roundtrip_any [where v = v8 and SIZE = 8 and x = e and 'p = 64] assms(4)
    by (simp add: take_bit_word_eq_self)
  moreover have "u64_value X (u64_assign X v8 f) = f"
    unfolding u64_value_def u64_assign_def
    using Int_roundtrip_any [where v = v8 and SIZE = 8 and x = f and 'p = 64] assms(4)
    by (simp add: take_bit_word_eq_self)
  moreover have g: "u24_value X (u24_assign X v3 g) = take_bit 24 g"
    unfolding u24_value_def u24_assign_def
    using Int_roundtrip_any [where v = v3 and SIZE = 3 and x = g and 'p = 32] assms(2) by simp
  moreover have "unat (u24_value X (u24_assign X v3 g)) = unat g mod 2 ^ 24"
    unfolding g unsigned_take_bit_eq by (simp add: take_bit_eq_mod)
  ultimately show ?thesis by blast
qed

theorem Int_round_trip_witness:
  "length [0, 0 :: u8] = 2 \<and> length [1, 2, 3 :: u8] = 3 \<and>
   length [0, 0, 0, 0 :: u8] = 4 \<and> length [9, 9, 9, 9, 9, 9, 9, 9 :: u8] = 8 \<and>
   i16_assign BIG [0, 0] 0xBEEF = [0xBE, 0xEF] \<and>
   i16_value BIG (i16_assign BIG [0, 0] 0xBEEF) = 0xBEEF \<and>
   u24_assign BIG [1, 2, 3] 0x12345678 = [0x34, 0x56, 0x78] \<and>
   u24_value BIG (u24_assign BIG [1, 2, 3] 0x12345678) = 0x345678 \<and>
   i64_value BIG (i64_assign BIG [9, 9, 9, 9, 9, 9, 9, 9] (- 2)) = - 2"
proof -
  have l: "length [0, 0 :: u8] = 2" "length [1, 2, 3 :: u8] = 3"
    "length [0, 0, 0, 0 :: u8] = 4" "length [9, 9, 9, 9, 9, 9, 9, 9 :: u8] = 8"
    by simp_all
  have s2: "i16_assign BIG [0, 0] 0xBEEF = [0xBE, 0xEF]"
    by (simp add: i16_assign_def Int_assign_def convert_def shift_right_def upt_rec)
  have s3: "u24_assign BIG [1, 2, 3] 0x12345678 = [0x34, 0x56, 0x78]"
    by (simp add: u24_assign_def Int_assign_def convert_def shift_right_def upt_rec)
  from Int_round_trip [OF l, of BIG "0xBEEF" _ _ _ "- 2" _ "0x12345678"] l s2 s3
  show ?thesis by simp
qed

section \<open>Output chunks\<close>

text \<open>
  The section types and flags are those of the ELF format (\<open>elf.h\<close>):
  \<open>SHT_NOTE\<close>, \<open>SHT_NOBITS\<close>, \<open>SHF_WRITE\<close>, \<open>SHF_ALLOC\<close>, \<open>SHF_EXECINSTR\<close>
  and \<open>SHF_TLS\<close>.
\<close>

definition SHT_NOTE :: u64 where "SHT_NOTE = 7"
definition SHT_NOBITS :: u64 where "SHT_NOBITS = 8"
definition SHF_WRITE :: u64 where "SHF_WRITE = 0x1"
definition SHF_ALLOC :: u64 where "SHF_ALLOC = 0x2"
definition SHF_EXECINSTR :: u64 where "SHF_EXECINSTR = 0x4"
definition SHF_TLS :: u64 where "SHF_TLS = 0x400"

text \<open>
  A chunk carries its output section header; the fields below are those the layout
  passes read and write (the 64-bit ELF header, as for x86-64). \<open>ctx.chunks\<close> is a
  vector of pointers to chunks: a pointer is an address (a natural number), and the
  context holds the chunk stored at each address in \<open>chunk_at\<close>. \<open>ctx.ehdr\<close>,
  \<open>ctx.phdr\<close>, \<open>ctx.interp\<close> and \<open>ctx.shdr\<close> are owning pointers that may be null.
\<close>

record ElfShdr =
  sh_type :: u32
  sh_flags :: u64
  sh_addr :: u64
  sh_offset :: u64
  sh_size :: u64
  sh_addralign :: u64
  sh_entsize :: u64

record Chunk =
  shdr :: ElfShdr
  new_page :: bool

record Context =
  ctx_ehdr :: "nat option"
  ctx_phdr :: "nat option"
  ctx_interp :: "nat option"
  ctx_shdr :: "nat option"
  chunks :: "nat list"
  image_base :: u64
  chunk_at :: "nat \<Rightarrow> Chunk"

subsection \<open>The rank of a chunk\<close>

text \<open>
  \<^verbatim>\<open>
  i64 get_section_rank(Context<E> &ctx, Chunk<E> *chunk) {
    u64 type = chunk->shdr.sh_type;
    u64 flags = chunk->shdr.sh_flags;

    if (chunk == ctx.ehdr.get())    return -4;
    if (chunk == ctx.phdr.get())    return -3;
    if (chunk == ctx.interp.get())  return -2;
    if (type == SHT_NOTE && (flags & SHF_ALLOC))  return -1;
    if (chunk == ctx.shdr.get())    return 1 << 6;
    if (!(flags & SHF_ALLOC))       return 1 << 5;

    bool writable = (flags & SHF_WRITE);
    bool exec = (flags & SHF_EXECINSTR);
    bool tls = (flags & SHF_TLS);
    bool relro = is_relro(ctx, chunk);
    bool is_bss = (type == SHT_NOBITS);

    return (writable << 4) | (exec << 3) | (!tls << 2) |
           (!relro << 1) | is_bss;
  }
  \<close>
  \<open>is_relro\<close> is declared in a header that is not among the sources: it is a
  parameter of the model.
\<close>

definition get_section_rank :: "(Context \<Rightarrow> nat \<Rightarrow> bool) \<Rightarrow> Context \<Rightarrow> nat \<Rightarrow> int" where
  "get_section_rank is_relro ctx chunk =
     (let type = (ucast (sh_type (shdr (chunk_at ctx chunk))) :: u64);
          flags = sh_flags (shdr (chunk_at ctx chunk))
      in if Some chunk = ctx_ehdr ctx then - 4
         else if Some chunk = ctx_phdr ctx then - 3
         else if Some chunk = ctx_interp ctx then - 2
         else if type = SHT_NOTE \<and> flags AND SHF_ALLOC \<noteq> 0 then - 1
         else if Some chunk = ctx_shdr ctx then push_bit 6 1
         else if \<not> (flags AND SHF_ALLOC \<noteq> 0) then push_bit 5 1
         else
           let writable = (flags AND SHF_WRITE \<noteq> 0);
               exec = (flags AND SHF_EXECINSTR \<noteq> 0);
               tls = (flags AND SHF_TLS \<noteq> 0);
               relro = is_relro ctx chunk;
               is_bss = (type = SHT_NOBITS)
           in push_bit 4 (of_bool writable) OR push_bit 3 (of_bool exec) OR
              push_bit 2 (of_bool (\<not> tls)) OR push_bit 1 (of_bool (\<not> relro)) OR
              of_bool is_bss)"

text \<open>
  The classes of the specification's list, in its order. \<open>class_of\<close> follows the
  words of the list: a chunk is the ELF header, the program header, \<open>.interp\<close> or the
  section header by its identity; it is an alloc note by its type; otherwise its class
  is given by \<open>SHF_ALLOC\<close>, \<open>SHF_WRITE\<close>, \<open>SHF_EXECINSTR\<close> (code or data, for the
  read-only classes), \<open>SHF_TLS\<close>, RELRO and \<open>SHT_NOBITS\<close> (bss or data).
\<close>

datatype chunk_class =
    ElfHeader | ProgramHeader | Interp | AllocNote | AllocRoData | AllocRoCode
  | AllocTlsData | AllocTlsBss | AllocRelroData | AllocRelroBss
  | AllocData | AllocBss | NonAlloc | SectionHeader


definition class_of :: "(Context \<Rightarrow> nat \<Rightarrow> bool) \<Rightarrow> Context \<Rightarrow> nat \<Rightarrow> chunk_class" where
  "class_of is_relro ctx chunk =
     (let type = (ucast (sh_type (shdr (chunk_at ctx chunk))) :: u64);
          flags = sh_flags (shdr (chunk_at ctx chunk));
          alloc = (flags AND SHF_ALLOC \<noteq> 0);
          writable = (flags AND SHF_WRITE \<noteq> 0);
          exec = (flags AND SHF_EXECINSTR \<noteq> 0);
          tls = (flags AND SHF_TLS \<noteq> 0);
          bss = (type = SHT_NOBITS)
      in if Some chunk = ctx_ehdr ctx then ElfHeader
         else if Some chunk = ctx_phdr ctx then ProgramHeader
         else if Some chunk = ctx_interp ctx then Interp
         else if alloc \<and> type = SHT_NOTE then AllocNote
         else if Some chunk = ctx_shdr ctx then SectionHeader
         else if \<not> alloc then NonAlloc
         else if \<not> writable then (if exec then AllocRoCode else AllocRoData)
         else if tls then (if bss then AllocTlsBss else AllocTlsData)
         else if is_relro ctx chunk then (if bss then AllocRelroBss else AllocRelroData)
         else (if bss then AllocBss else AllocData))"




subsection \<open>The order of the ranks\<close>






definition mk_chunk :: "u32 \<Rightarrow> u64 \<Rightarrow> u64 \<Rightarrow> u64 \<Rightarrow> bool \<Rightarrow> Chunk" where
  "mk_chunk ty flags sz align np =
     \<lparr>shdr = \<lparr>sh_type = ty, sh_flags = flags, sh_addr = 0, sh_offset = 0,
              sh_size = sz, sh_addralign = align, sh_entsize = 0\<rparr>, new_page = np\<rparr>"

text \<open>
  An output with six chunks: the ELF header at address 0, \<open>.text\<close> (alloc, exec),
  \<open>.data\<close> (alloc, writable), \<open>.bss\<close> (alloc, writable, NOBITS), a section that is
  writable and executable (alloc, writable, exec: what \<open>.section .jit,"awx"\<close> gives),
  and the section header.
\<close>

definition example_ctx :: Context where
  "example_ctx =
     \<lparr>ctx_ehdr = Some 0, ctx_phdr = None, ctx_interp = None, ctx_shdr = Some 5,
      chunks = [0, 1, 2, 3, 4, 5], image_base = 0x200000,
      chunk_at = (\<lambda>p. [mk_chunk 0 2 64 8 False, mk_chunk 1 6 100 16 True,
                         mk_chunk 1 3 10 8 True, mk_chunk 8 3 50 32 False,
                         mk_chunk 1 7 24 16 True, mk_chunk 0 0 384 8 False] ! p)\<rparr>"


text \<open>
  \<open>is_relro\<close> is a parameter: were it to count \<open>.tbss\<close> as RELRO and \<open>.tdata\<close> not,
  \<open>.tdata\<close> (class ``alloc writable TLS data'', rank 18) would be sorted after
  \<open>.tbss\<close> (class ``alloc writable TLS bss'', rank 17).
\<close>

definition tls_ctx :: Context where
  "tls_ctx =
     \<lparr>ctx_ehdr = Some 0, ctx_phdr = None, ctx_interp = None, ctx_shdr = Some 3,
      chunks = [0, 1, 2, 3], image_base = 0x200000,
      chunk_at = (\<lambda>p. [mk_chunk 0 2 64 8 False, mk_chunk 1 0x403 16 8 True,
                         mk_chunk 8 0x403 32 8 False, mk_chunk 0 0 256 8 False] ! p)\<rparr>"

lemma get_section_rank_tls_relro:
  "class_of (\<lambda>ctx chunk. chunk = 2) tls_ctx 1 = AllocTlsData \<and>
   class_of (\<lambda>ctx chunk. chunk = 2) tls_ctx 2 = AllocTlsBss \<and>
   get_section_rank (\<lambda>ctx chunk. chunk = 2) tls_ctx 1 = 18 \<and>
   get_section_rank (\<lambda>ctx chunk. chunk = 2) tls_ctx 2 = 17"
  by (simp add: class_of_def get_section_rank_def tls_ctx_def mk_chunk_def
      SHT_NOTE_def SHT_NOBITS_def SHF_WRITE_def SHF_ALLOC_def SHF_EXECINSTR_def SHF_TLS_def)



section \<open>Layout: virtual addresses and file offsets\<close>

text \<open>
  \<^verbatim>\<open>
  inline u64 align_to(u64 val, u64 align) {
    if (align == 0)
      return val;
    assert(__builtin_popcount(align) == 1);
    return (val + align - 1) & ~(align - 1);
  }

  inline u64 align_with_skew(u64 val, u64 align, u64 skew) {
    return align_to(val + align - skew, align) - align + skew;
  }
  \<close>
  The build does not define \<open>NDEBUG\<close>, so a failed \<open>assert\<close> aborts the link.
  \<open>__builtin_popcount\<close> takes an \<open>unsigned int\<close>: the alignment is truncated to 32
  bits before its bits are counted.
\<close>

datatype layout_error = AssertionFailed | ChunkIndexOutOfRange

definition popcount32 :: "u32 \<Rightarrow> nat" where
  "popcount32 w = length (filter (bit w) [0..<32])"

definition align_to :: "u64 \<Rightarrow> u64 \<Rightarrow> layout_error + u64" where
  "align_to val align =
     (if align = 0 then Inr val
      else if popcount32 (ucast align) \<noteq> 1 then Inl AssertionFailed
      else Inr ((val + align - 1) AND NOT (align - 1)))"

definition align_with_skew :: "u64 \<Rightarrow> u64 \<Rightarrow> u64 \<Rightarrow> layout_error + u64" where
  "align_with_skew val align skew =
     (case align_to (val + align - skew) align of
        Inl e \<Rightarrow> Inl e
      | Inr r \<Rightarrow> Inr (r - align + skew))"

definition is_alloc :: "Chunk \<Rightarrow> bool" where
  "is_alloc c = (sh_flags (shdr c) AND SHF_ALLOC \<noteq> 0)"

definition is_nobits :: "Chunk \<Rightarrow> bool" where
  "is_nobits c = ((ucast (sh_type (shdr c)) :: u64) = SHT_NOBITS)"

definition set_addr_offset :: "Context \<Rightarrow> nat \<Rightarrow> u64 \<Rightarrow> u64 \<Rightarrow> Context" where
  "set_addr_offset ctx p a off =
     ctx\<lparr>chunk_at := (chunk_at ctx)
        (p := (chunk_at ctx p)\<lparr>shdr := (shdr (chunk_at ctx p))\<lparr>sh_addr := a, sh_offset := off\<rparr>\<rparr>)\<rparr>"

definition set_offset :: "Context \<Rightarrow> nat \<Rightarrow> u64 \<Rightarrow> Context" where
  "set_offset ctx p off =
     ctx\<lparr>chunk_at := (chunk_at ctx)
        (p := (chunk_at ctx p)\<lparr>shdr := (shdr (chunk_at ctx p))\<lparr>sh_offset := off\<rparr>\<rparr>)\<rparr>"

text \<open>
  \<^verbatim>\<open>
  i64 set_osec_offsets(Context<E> &ctx) {
    u64 fileoff = 0;
    u64 vaddr = ctx.arg.image_base;

    i64 i = 0;
    i64 end = 0;
    while (ctx.chunks[end]->shdr.sh_flags & SHF_ALLOC)
      end++;

    while (i < end) {
      fileoff = align_with_skew(fileoff, COMMON_PAGE_SIZE, vaddr % COMMON_PAGE_SIZE);

      for (; i < end && ctx.chunks[i]->shdr.sh_type != SHT_NOBITS; i++) {
        Chunk<E> &chunk = *ctx.chunks[i];
        u64 prev_vaddr = vaddr;

        if (chunk.new_page)
          vaddr = align_to(vaddr, COMMON_PAGE_SIZE);
        vaddr = align_to(vaddr, chunk.shdr.sh_addralign);
        fileoff += vaddr - prev_vaddr;

        chunk.shdr.sh_addr = vaddr;
        vaddr += chunk.shdr.sh_size;

        chunk.shdr.sh_offset = fileoff;
        fileoff += chunk.shdr.sh_size;
      }

      for (; i < end && ctx.chunks[i]->shdr.sh_type == SHT_NOBITS; i++) {
        Chunk<E> &chunk = *ctx.chunks[i];

        if (chunk.new_page)
          vaddr = align_to(vaddr, COMMON_PAGE_SIZE);
        vaddr = align_to(vaddr, chunk.shdr.sh_addralign);
        fileoff = align_with_skew(fileoff, COMMON_PAGE_SIZE, vaddr % COMMON_PAGE_SIZE);

        chunk.shdr.sh_addr = vaddr;
        chunk.shdr.sh_offset = fileoff;
        if (!(chunk.shdr.sh_flags & SHF_TLS))
          vaddr += chunk.shdr.sh_size;
      }
    }

    for (; i < ctx.chunks.size(); i++) {
      Chunk<E> &chunk = *ctx.chunks[i];
      assert(!(chunk.shdr.sh_flags & SHF_ALLOC));
      fileoff = align_to(fileoff, chunk.shdr.sh_addralign);
      chunk.shdr.sh_offset = fileoff;
      fileoff += chunk.shdr.sh_size;
    }
    return fileoff;
  }
  \<close>
  \<open>COMMON_PAGE_SIZE\<close> is defined in a header that is not among the sources: it is the
  parameter \<open>page\<close>. The first loop reads \<open>ctx.chunks[end]\<close> without a bound: when
  every chunk is an alloc chunk it reads behind the vector
  (\<open>ChunkIndexOutOfRange\<close>). The function returns the file size and, here, the
  context with the updated chunks.
\<close>

function find_end :: "Context \<Rightarrow> nat \<Rightarrow> layout_error + nat" where
  "find_end ctx e =
     (if length (chunks ctx) \<le> e then Inl ChunkIndexOutOfRange
      else if is_alloc (chunk_at ctx (chunks ctx ! e)) then find_end ctx (e + 1)
      else Inr e)"
  by pat_completeness auto
termination
  by (relation "measure (\<lambda>(ctx, e). length (chunks ctx) - e)") auto

definition place_vaddr :: "u64 \<Rightarrow> Chunk \<Rightarrow> u64 \<Rightarrow> layout_error + u64" where
  "place_vaddr page chunk vaddr =
     (case (if new_page chunk then align_to vaddr page else Inr vaddr) of
        Inl e \<Rightarrow> Inl e
      | Inr v \<Rightarrow> align_to v (sh_addralign (shdr chunk)))"

function nonbss_loop ::
  "u64 \<Rightarrow> nat \<Rightarrow> nat \<Rightarrow> u64 \<Rightarrow> u64 \<Rightarrow> Context \<Rightarrow> layout_error + (nat \<times> u64 \<times> u64 \<times> Context)" where
  "nonbss_loop page end i vaddr fileoff ctx =
     (if i < end \<and> \<not> is_nobits (chunk_at ctx (chunks ctx ! i)) then
        let p = chunks ctx ! i; chunk = chunk_at ctx p; prev_vaddr = vaddr in
        case place_vaddr page chunk vaddr of
          Inl e \<Rightarrow> Inl e
        | Inr vaddr' \<Rightarrow>
            let fileoff' = fileoff + (vaddr' - prev_vaddr);
                ctx' = set_addr_offset ctx p vaddr' fileoff'
            in nonbss_loop page end (i + 1) (vaddr' + sh_size (shdr chunk))
                 (fileoff' + sh_size (shdr chunk)) ctx'
      else Inr (i, vaddr, fileoff, ctx))"
  by pat_completeness auto
termination
  by (relation "measure (\<lambda>(page, end, i, vaddr, fileoff, ctx). end - i)") auto

function bss_loop ::
  "u64 \<Rightarrow> nat \<Rightarrow> nat \<Rightarrow> u64 \<Rightarrow> u64 \<Rightarrow> Context \<Rightarrow> layout_error + (nat \<times> u64 \<times> u64 \<times> Context)" where
  "bss_loop page end i vaddr fileoff ctx =
     (if i < end \<and> is_nobits (chunk_at ctx (chunks ctx ! i)) then
        let p = chunks ctx ! i; chunk = chunk_at ctx p in
        case place_vaddr page chunk vaddr of
          Inl e \<Rightarrow> Inl e
        | Inr vaddr' \<Rightarrow>
            (case align_with_skew fileoff page (vaddr' mod page) of
               Inl e \<Rightarrow> Inl e
             | Inr fileoff' \<Rightarrow>
                 let ctx' = set_addr_offset ctx p vaddr' fileoff';
                     vaddr'' = (if \<not> (sh_flags (shdr chunk) AND SHF_TLS \<noteq> 0)
                                then vaddr' + sh_size (shdr chunk) else vaddr')
                 in bss_loop page end (i + 1) vaddr'' fileoff' ctx')
      else Inr (i, vaddr, fileoff, ctx))"
  by pat_completeness auto
termination
  by (relation "measure (\<lambda>(page, end, i, vaddr, fileoff, ctx). end - i)") auto

text \<open>
  Each round of the outer loop places at least one chunk: the first loop does when
  the chunk at \<open>i\<close> is not a NOBITS chunk, and the second does when it is.
\<close>

lemma nonbss_loop_index:
  "nonbss_loop page end i vaddr fileoff ctx = Inr (i', r) \<Longrightarrow>
   i \<le> i' \<and> (i < end \<and> \<not> is_nobits (chunk_at ctx (chunks ctx ! i)) \<longrightarrow> i < i')"
proof (induction page "end" i vaddr fileoff ctx arbitrary: i' r rule: nonbss_loop.induct)
  case (1 page "end" i vaddr fileoff ctx)
  show ?case
  proof (cases "i < end \<and> \<not> is_nobits (chunk_at ctx (chunks ctx ! i))")
    case True
    with "1.prems" obtain v where v: "place_vaddr page (chunk_at ctx (chunks ctx ! i)) vaddr = Inr v"
      by (auto simp: Let_def split: sum.splits)
    from "1.prems" True v "1.IH" [OF True refl refl refl v refl refl]
    show ?thesis
      by (auto simp: Let_def)
  next
    case False
    with "1.prems" show ?thesis by auto
  qed
qed


lemma bss_loop_index:
  "bss_loop page end i vaddr fileoff ctx = Inr (i', r) \<Longrightarrow>
   i \<le> i' \<and> (i < end \<and> is_nobits (chunk_at ctx (chunks ctx ! i)) \<longrightarrow> i < i')"
proof (induction page "end" i vaddr fileoff ctx arbitrary: i' r rule: bss_loop.induct)
  case (1 page "end" i vaddr fileoff ctx)
  show ?case
  proof (cases "i < end \<and> is_nobits (chunk_at ctx (chunks ctx ! i))")
    case True
    with "1.prems" obtain v f where v: "place_vaddr page (chunk_at ctx (chunks ctx ! i)) vaddr = Inr v"
       and f: "align_with_skew fileoff page (v mod page) = Inr f"
      by (auto simp: Let_def split: sum.splits)
    from "1.prems" True v f "1.IH" [OF True refl refl v f refl refl]
    show ?thesis
      by (auto simp: Let_def)
  next
    case False
    with "1.prems" show ?thesis by auto
  qed
qed

lemma nonbss_loop_stay:
  "\<not> (i < end \<and> \<not> is_nobits (chunk_at ctx (chunks ctx ! i))) \<Longrightarrow>
   nonbss_loop page end i vaddr fileoff ctx = Inr (i, vaddr, fileoff, ctx)"
  by auto

function osec_loop ::
  "u64 \<Rightarrow> nat \<Rightarrow> nat \<Rightarrow> u64 \<Rightarrow> u64 \<Rightarrow> Context \<Rightarrow> layout_error + (nat \<times> u64 \<times> Context)" where
  "osec_loop page end i vaddr fileoff ctx =
     (if i < end then
        case align_with_skew fileoff page (vaddr mod page) of
          Inl e \<Rightarrow> Inl e
        | Inr fileoff' \<Rightarrow>
            (case nonbss_loop page end i vaddr fileoff' ctx of
               Inl e \<Rightarrow> Inl e
             | Inr (i1, vaddr1, fileoff1, ctx1) \<Rightarrow>
                 (case bss_loop page end i1 vaddr1 fileoff1 ctx1 of
                    Inl e \<Rightarrow> Inl e
                  | Inr (i2, vaddr2, fileoff2, ctx2) \<Rightarrow>
                      osec_loop page end i2 vaddr2 fileoff2 ctx2))
      else Inr (i, fileoff, ctx))"
  by pat_completeness auto
termination
proof (relation "measure (\<lambda>(page, end, i, vaddr, fileoff, ctx). end - i)")
  show "wf (measure (\<lambda>(page, end, i, vaddr, fileoff, ctx). end - i))" by simp
next
  fix page :: u64 and "end" i :: nat and vaddr fileoff :: u64 and ctx :: Context
    and fileoff' x2 i1 y vaddr1 ya fileoff1 ctx1 x2a i2 yb vaddr2 yc fileoff2 ctx2
  assume lt: "i < end"
    and n: "nonbss_loop page end i vaddr fileoff' ctx = Inr x2" "(i1, y) = x2"
      "(vaddr1, ya) = y" "(fileoff1, ctx1) = ya"
    and b: "bss_loop page end i1 vaddr1 fileoff1 ctx1 = Inr x2a" "(i2, yb) = x2a"
  from n have n': "nonbss_loop page end i vaddr fileoff' ctx = Inr (i1, vaddr1, fileoff1, ctx1)"
    by auto
  from b have b': "bss_loop page end i1 vaddr1 fileoff1 ctx1 = Inr (i2, yb)" by auto
  have "i < i2"
  proof (cases "is_nobits (chunk_at ctx (chunks ctx ! i))")
    case False
    with nonbss_loop_index [OF n'] lt have "i < i1" by simp
    with bss_loop_index [OF b'] show ?thesis by simp
  next
    case True
    with n' have "i1 = i" "ctx1 = ctx" by (simp_all add: nonbss_loop_stay)
    with bss_loop_index [OF b'] True lt show ?thesis by simp
  qed
  with lt show "((page, end, i2, vaddr2, fileoff2, ctx2), (page, end, i, vaddr, fileoff, ctx))
        \<in> measure (\<lambda>(page, end, i, vaddr, fileoff, ctx). end - i)"
    by simp
qed

function tail_loop :: "nat \<Rightarrow> u64 \<Rightarrow> Context \<Rightarrow> layout_error + (u64 \<times> Context)" where
  "tail_loop i fileoff ctx =
     (if i < length (chunks ctx) then
        let p = chunks ctx ! i; chunk = chunk_at ctx p in
        if is_alloc chunk then Inl AssertionFailed
        else
          case align_to fileoff (sh_addralign (shdr chunk)) of
            Inl e \<Rightarrow> Inl e
          | Inr fileoff' \<Rightarrow>
              tail_loop (i + 1) (fileoff' + sh_size (shdr chunk)) (set_offset ctx p fileoff')
      else Inr (fileoff, ctx))"
  by pat_completeness auto
termination
  by (relation "measure (\<lambda>(i, fileoff, ctx). length (chunks ctx) - i)")
     (auto simp: set_offset_def)

definition set_osec_offsets :: "u64 \<Rightarrow> Context \<Rightarrow> layout_error + (u64 \<times> Context)" where
  "set_osec_offsets page ctx =
     (case find_end ctx 0 of
        Inl e \<Rightarrow> Inl e
      | Inr end \<Rightarrow>
          (case osec_loop page end 0 (image_base ctx) 0 ctx of
             Inl e \<Rightarrow> Inl e
           | Inr (i, fileoff, ctx') \<Rightarrow> tail_loop i fileoff ctx'))"


declare nonbss_loop.simps [simp del] bss_loop.simps [simp del] osec_loop.simps [simp del]
  tail_loop.simps [simp del] find_end.simps [simp del]

subsection \<open>Alignment and congruence modulo the page size\<close>

definition power_of_two :: "u64 \<Rightarrow> bool" where
  "power_of_two a = (a \<in> set (map (\<lambda>k. 2 ^ k) [0..<64]))"

definition placed :: "u64 \<Rightarrow> Chunk \<Rightarrow> bool" where
  "placed page c =
     (sh_addr (shdr c) mod page = sh_offset (shdr c) mod page \<and>
      sh_addr (shdr c) mod sh_addralign (shdr c) = 0)"

definition static :: "Chunk \<Rightarrow> Chunk" where
  "static c = c\<lparr>shdr := (shdr c)\<lparr>sh_addr := 0, sh_offset := 0\<rparr>\<rparr>"



lemma power_of_twoE:
  assumes "power_of_two a"
  obtains k where "k < 64" "a = 2 ^ k"
  using assms by (auto simp: power_of_two_def)

lemma mod_pow2_take_bit: "(w :: u64) mod 2 ^ k = take_bit k w"
  by (simp add: take_bit_eq_mod)

lemma align_to_aligned:
  assumes "power_of_two a" "align_to v a = Inr r"
  shows "r mod a = 0"
proof -
  from assms(1) obtain k where k: "k < 64" "a = 2 ^ k" by (rule power_of_twoE)
  from assms(2) have r: "r = (v + a - 1) AND NOT (a - 1) \<or> (a = 0 \<and> r = v)"
    by (auto simp: align_to_def split: if_splits)
  have "a \<noteq> 0" using k by simp
  with r have "r = (v + 2 ^ k - 1) AND NOT (mask k)"
    by (simp add: k mask_eq_exp_minus_1)
  then have "take_bit k r = 0"
    by (intro bit_word_eqI) (auto simp: bit_simps)
  then show ?thesis by (simp add: k mod_pow2_take_bit)
qed

lemma take_bit_add_int:
  fixes x y :: int
  assumes "m \<le> k"
  shows "take_bit m (take_bit k x + take_bit k y) = take_bit m (x + y)"
proof -
  have "take_bit m (take_bit k x + take_bit k y)
        = take_bit m (take_bit m (take_bit k x) + take_bit m (take_bit k y))"
    by (simp only: take_bit_add)
  also have "\<dots> = take_bit m (take_bit m x + take_bit m y)"
    using assms by (simp add: min_def)
  also have "\<dots> = take_bit m (x + y)"
    by (simp only: take_bit_add)
  finally show ?thesis .
qed

lemma take_bit_diff_int:
  fixes x y :: int
  assumes "m \<le> k"
  shows "take_bit m (take_bit k x - take_bit k y) = take_bit m (x - y)"
proof -
  have "take_bit m (take_bit k x - take_bit k y)
        = take_bit m (take_bit m (take_bit k x) - take_bit m (take_bit k y))"
    by (simp only: take_bit_diff)
  also have "\<dots> = take_bit m (take_bit m x - take_bit m y)"
    using assms by (simp add: min_def)
  also have "\<dots> = take_bit m (x - y)"
    by (simp only: take_bit_diff)
  finally show ?thesis .
qed

lemma take_bit_add_word:
  fixes a c :: "'a::len word"
  shows "take_bit k (take_bit k a + take_bit k c) = take_bit k (a + c)"
proof -
  have "uint (take_bit k (take_bit k a + take_bit k c)) = uint (take_bit k (a + c))"
    unfolding unsigned_take_bit_eq uint_word_ariths take_bit_eq_mod [symmetric]
    by (simp add: take_bit_add_int)
  then show ?thesis by (simp only: word_uint_eq_iff)
qed

lemma take_bit_diff_word:
  fixes a c :: "'a::len word"
  shows "take_bit k (take_bit k a - take_bit k c) = take_bit k (a - c)"
proof -
  have "uint (take_bit k (take_bit k a - take_bit k c)) = uint (take_bit k (a - c))"
    unfolding unsigned_take_bit_eq uint_word_ariths take_bit_eq_mod [symmetric]
    by (simp add: take_bit_diff_int)
  then show ?thesis by (simp only: word_uint_eq_iff)
qed
lemma take_bit_add_cong:
  fixes a b c :: u64
  assumes "take_bit k a = take_bit k b"
  shows "take_bit k (a + c) = take_bit k (b + c)"
proof -
  have "take_bit k (a + c) = take_bit k (take_bit k a + take_bit k c)"
    by (simp only: take_bit_add_word)
  also have "\<dots> = take_bit k (take_bit k b + take_bit k c)"
    by (simp only: assms)
  also have "\<dots> = take_bit k (b + c)"
    by (simp only: take_bit_add_word)
  finally show ?thesis .
qed

lemma shift_cong:
  fixes fileoff vaddr vaddr' :: u64
  assumes "fileoff mod 2 ^ k = vaddr mod 2 ^ k"
  shows "(fileoff + (vaddr' - vaddr)) mod 2 ^ k = vaddr' mod 2 ^ k"
proof -
  from assms have "take_bit k fileoff = take_bit k vaddr" by (simp add: mod_pow2_take_bit)
  then have "take_bit k (fileoff + (vaddr' - vaddr)) = take_bit k (vaddr + (vaddr' - vaddr))"
    by (rule take_bit_add_cong)
  then show ?thesis by (simp add: mod_pow2_take_bit)
qed

lemma align_with_skew_cong:
  assumes "power_of_two page" "align_with_skew val page (vaddr mod page) = Inr r"
  shows "r mod page = vaddr mod page"
proof -
  from assms(1) obtain k where k: "k < 64" "page = 2 ^ k" by (rule power_of_twoE)
  from assms(2) obtain r0 where r0: "align_to (val + page - vaddr mod page) page = Inr r0"
    and r: "r = r0 - page + vaddr mod page"
    by (auto simp: align_with_skew_def split: sum.splits)
  from align_to_aligned [OF assms(1) r0] have "take_bit k r0 = 0"
    by (simp add: k mod_pow2_take_bit)
  moreover have "take_bit k (2 ^ k :: u64) = 0"
    by (intro bit_word_eqI) (auto simp: bit_simps)
  ultimately have "take_bit k (take_bit k r0 - take_bit k (2 ^ k :: u64)) = 0"
    by simp
  then have "take_bit k (r0 - 2 ^ k) = 0"
    by (simp only: take_bit_diff_word)
  then have "take_bit k (r0 - 2 ^ k + take_bit k vaddr) = take_bit k (0 + take_bit k vaddr)"
    by (intro take_bit_add_cong) simp
  then show ?thesis by (simp add: r k mod_pow2_take_bit)
qed


lemma page_add_cong:
  assumes "power_of_two page" "f mod page = v mod page"
  shows "(f + c) mod page = (v + c) mod page"
proof -
  from assms(1) obtain k where k: "k < 64" "page = 2 ^ k" by (rule power_of_twoE)
  from assms(2) have "take_bit k f = take_bit k v" by (simp add: k mod_pow2_take_bit)
  then have "take_bit k (f + c) = take_bit k (v + c)" by (rule take_bit_add_cong)
  then show ?thesis by (simp add: k mod_pow2_take_bit)
qed

lemma page_shift_cong:
  assumes "power_of_two page" "f mod page = v mod page"
  shows "(f + (v' - v)) mod page = v' mod page"
proof -
  from assms(1) obtain k where k: "k < 64" "page = 2 ^ k" by (rule power_of_twoE)
  from assms(2) show ?thesis unfolding k by (rule shift_cong)
qed

lemma place_vaddr_aligned:
  assumes "power_of_two (sh_addralign (shdr c))" "place_vaddr page c v = Inr v'"
  shows "v' mod sh_addralign (shdr c) = 0"
  using assms
  by (auto simp: place_vaddr_def split: sum.splits if_splits intro: align_to_aligned)

lemma static_fields:
  assumes "static c = static c'"
  shows "sh_flags (shdr c) = sh_flags (shdr c')" "sh_type (shdr c) = sh_type (shdr c')"
    "sh_addralign (shdr c) = sh_addralign (shdr c')" "sh_size (shdr c) = sh_size (shdr c')"
    "new_page c = new_page c'"
proof -
  have "sh_flags (shdr c) = sh_flags (shdr (static c))" "sh_type (shdr c) = sh_type (shdr (static c))"
    "sh_addralign (shdr c) = sh_addralign (shdr (static c))" "sh_size (shdr c) = sh_size (shdr (static c))"
    "new_page c = new_page (static c)" for c
    by (simp_all add: static_def)
  with assms show "sh_flags (shdr c) = sh_flags (shdr c')" "sh_type (shdr c) = sh_type (shdr c')"
    "sh_addralign (shdr c) = sh_addralign (shdr c')" "sh_size (shdr c) = sh_size (shdr c')"
    "new_page c = new_page c'"
    by metis+
qed

lemma static_is_alloc: "static c = static c' \<Longrightarrow> is_alloc c = is_alloc c'"
  using static_fields(1) [of c c'] by (simp add: is_alloc_def)

lemma static_is_nobits: "static c = static c' \<Longrightarrow> is_nobits c = is_nobits c'"
  using static_fields(2) [of c c'] by (simp add: is_nobits_def)

lemma set_addr_offset_simps:
  "chunks (set_addr_offset ctx p a off) = chunks ctx"
  "q \<noteq> p \<Longrightarrow> chunk_at (set_addr_offset ctx p a off) q = chunk_at ctx q"
  "static (chunk_at (set_addr_offset ctx p a off) q) = static (chunk_at ctx q)"
  "placed page (chunk_at (set_addr_offset ctx p a off) p) \<longleftrightarrow>
     a mod page = off mod page \<and> a mod sh_addralign (shdr (chunk_at ctx p)) = 0"
  by (simp_all add: set_addr_offset_def static_def placed_def)

lemma set_offset_simps:
  "chunks (set_offset ctx p off) = chunks ctx"
  "q \<noteq> p \<Longrightarrow> chunk_at (set_offset ctx p off) q = chunk_at ctx q"
  "static (chunk_at (set_offset ctx p off) q) = static (chunk_at ctx q)"
  by (simp_all add: set_offset_def static_def)

definition layout_inv :: "u64 \<Rightarrow> Context \<Rightarrow> nat \<Rightarrow> Context \<Rightarrow> bool" where
  "layout_inv page ctx0 i ctx =
     (chunks ctx = chunks ctx0 \<and>
      (\<forall>q. static (chunk_at ctx q) = static (chunk_at ctx0 q)) \<and>
      (\<forall>j<i. placed page (chunk_at ctx (chunks ctx ! j))))"

definition aligns_ok :: "Context \<Rightarrow> bool" where
  "aligns_ok ctx = (\<forall>p \<in> set (chunks ctx). power_of_two (sh_addralign (shdr (chunk_at ctx p))))"

lemma layout_inv_step:
  assumes inv: "layout_inv page ctx0 i ctx" and i: "i < length (chunks ctx0)"
    and a: "a mod page = off mod page"
    and b: "a mod sh_addralign (shdr (chunk_at ctx (chunks ctx0 ! i))) = 0"
  shows "layout_inv page ctx0 (Suc i) (set_addr_offset ctx (chunks ctx0 ! i) a off)"
proof -
  let ?p = "chunks ctx0 ! i"
  let ?ctx' = "set_addr_offset ctx ?p a off"
  from inv have c: "chunks ctx = chunks ctx0"
    and s: "\<And>q. static (chunk_at ctx q) = static (chunk_at ctx0 q)"
    and pl: "\<And>j. j < i \<Longrightarrow> placed page (chunk_at ctx (chunks ctx ! j))"
    by (auto simp: layout_inv_def)
  have "placed page (chunk_at ?ctx' (chunks ?ctx' ! j))" if "j < Suc i" for j
  proof (cases "chunks ctx0 ! j = ?p")
    case True
    then show ?thesis using a b by (simp add: set_addr_offset_simps c)
  next
    case False
    with that have "j < i" by (cases "j = i") auto
    with pl [of j] False show ?thesis by (simp add: set_addr_offset_simps c)
  qed
  then show ?thesis
    using c s by (simp add: layout_inv_def set_addr_offset_simps)
qed

lemma aligns_ok_at:
  assumes "aligns_ok ctx0" "layout_inv page ctx0 i ctx" "j < length (chunks ctx0)"
  shows "power_of_two (sh_addralign (shdr (chunk_at ctx (chunks ctx0 ! j))))"
proof -
  from assms(2) have "static (chunk_at ctx (chunks ctx0 ! j)) = static (chunk_at ctx0 (chunks ctx0 ! j))"
    by (simp add: layout_inv_def)
  then have "sh_addralign (shdr (chunk_at ctx (chunks ctx0 ! j)))
      = sh_addralign (shdr (chunk_at ctx0 (chunks ctx0 ! j)))"
    by (rule static_fields)
  with assms(1,3) show ?thesis by (simp add: aligns_ok_def)
qed

lemma nonbss_loop_inv:
  assumes "power_of_two page" "aligns_ok ctx0" "end \<le> length (chunks ctx0)"
    and "layout_inv page ctx0 i ctx" "fileoff mod page = vaddr mod page"
    and "nonbss_loop page end i vaddr fileoff ctx = Inr (i', vaddr', fileoff', ctx')"
  shows "layout_inv page ctx0 i' ctx' \<and> fileoff' mod page = vaddr' mod page"
  using assms
proof (induction page "end" i vaddr fileoff ctx rule: nonbss_loop.induct)
  case (1 page "end" i vaddr fileoff ctx)
  note pw = "1.prems"(1) and al = "1.prems"(2) and en = "1.prems"(3)
    and inv = "1.prems"(4) and cg = "1.prems"(5) and run = "1.prems"(6)
  from inv have c: "chunks ctx = chunks ctx0" by (simp add: layout_inv_def)
  show ?case
  proof (cases "i < end \<and> \<not> is_nobits (chunk_at ctx (chunks ctx ! i))")
    case False
    with inv cg run show ?thesis by (simp add: nonbss_loop.simps [of page "end" i])
  next
    case True
    let ?p = "chunks ctx ! i"
    let ?chunk = "chunk_at ctx ?p"
    from True en have il: "i < length (chunks ctx0)" by simp
    from run True obtain v where v: "place_vaddr page ?chunk vaddr = Inr v"
      by (auto simp: nonbss_loop.simps [of page "end" i] Let_def split: sum.splits)
    let ?f = "fileoff + (v - vaddr)"
    let ?ctx1 = "set_addr_offset ctx ?p v ?f"
    from run True v
    have rec: "nonbss_loop page end (i + 1) (v + sh_size (shdr ?chunk)) (?f + sh_size (shdr ?chunk)) ?ctx1
        = Inr (i', vaddr', fileoff', ctx')"
      by (simp add: nonbss_loop.simps [of page "end" i] Let_def)
    have pa: "power_of_two (sh_addralign (shdr ?chunk))"
      using aligns_ok_at [OF al inv il] by (simp add: c)
    have va: "v mod sh_addralign (shdr ?chunk) = 0"
      using place_vaddr_aligned [OF pa v] .
    have fc: "?f mod page = v mod page"
      using page_shift_cong [OF pw cg] .
    have inv1: "layout_inv page ctx0 (i + 1) ?ctx1"
      using layout_inv_step [OF inv il fc [symmetric]] va by (simp add: c)
    have fc1: "(?f + sh_size (shdr ?chunk)) mod page = (v + sh_size (shdr ?chunk)) mod page"
      using page_add_cong [OF pw fc] .
    from "1.IH" [OF True refl refl refl v refl refl pw al en inv1 fc1 rec] show ?thesis .
  qed
qed


lemma bss_loop_inv:
  assumes "power_of_two page" "aligns_ok ctx0" "end \<le> length (chunks ctx0)"
    and "layout_inv page ctx0 i ctx"
    and "bss_loop page end i vaddr fileoff ctx = Inr (i', vaddr', fileoff', ctx')"
  shows "layout_inv page ctx0 i' ctx'"
  using assms
proof (induction page "end" i vaddr fileoff ctx rule: bss_loop.induct)
  case (1 page "end" i vaddr fileoff ctx)
  note pw = "1.prems"(1) and al = "1.prems"(2) and en = "1.prems"(3)
    and inv = "1.prems"(4) and run = "1.prems"(5)
  from inv have c: "chunks ctx = chunks ctx0" by (simp add: layout_inv_def)
  show ?case
  proof (cases "i < end \<and> is_nobits (chunk_at ctx (chunks ctx ! i))")
    case False
    with inv run show ?thesis by (simp add: bss_loop.simps [of page "end" i])
  next
    case True
    let ?p = "chunks ctx ! i"
    let ?chunk = "chunk_at ctx ?p"
    from True en have il: "i < length (chunks ctx0)" by simp
    from run True obtain v f where v: "place_vaddr page ?chunk vaddr = Inr v"
      and f: "align_with_skew fileoff page (v mod page) = Inr f"
      by (auto simp: bss_loop.simps [of page "end" i] Let_def split: sum.splits)
    let ?ctx1 = "set_addr_offset ctx ?p v f"
    let ?v1 = "if \<not> (sh_flags (shdr ?chunk) AND SHF_TLS \<noteq> 0) then v + sh_size (shdr ?chunk) else v"
    from run True v f
    have rec: "bss_loop page end (i + 1) ?v1 f ?ctx1 = Inr (i', vaddr', fileoff', ctx')"
      by (simp add: bss_loop.simps [of page "end" i] Let_def)
    have pa: "power_of_two (sh_addralign (shdr ?chunk))"
      using aligns_ok_at [OF al inv il] by (simp add: c)
    have va: "v mod sh_addralign (shdr ?chunk) = 0"
      using place_vaddr_aligned [OF pa v] .
    have fc: "f mod page = v mod page"
      using align_with_skew_cong [OF pw f] .
    have inv1: "layout_inv page ctx0 (i + 1) ?ctx1"
      using layout_inv_step [OF inv il fc [symmetric]] va by (simp add: c)
    from "1.IH" [OF True refl refl v f refl refl pw al en inv1 rec] show ?thesis .
  qed
qed

lemma osec_loop_inv:
  assumes "power_of_two page" "aligns_ok ctx0" "end \<le> length (chunks ctx0)"
    and "layout_inv page ctx0 i ctx"
    and "osec_loop page end i vaddr fileoff ctx = Inr (i', fileoff', ctx')"
  shows "layout_inv page ctx0 i' ctx'"
  using assms
proof (induction page "end" i vaddr fileoff ctx rule: osec_loop.induct)
  case (1 page "end" i vaddr fileoff ctx)
  note pw = "1.prems"(1) and al = "1.prems"(2) and en = "1.prems"(3)
    and inv = "1.prems"(4) and run = "1.prems"(5)
  show ?case
  proof (cases "i < end")
    case False
    with inv run show ?thesis by (simp add: osec_loop.simps [of page "end" i])
  next
    case True
    from run True obtain f0 i1 v1 f1 c1 i2 v2 f2 c2
      where f0: "align_with_skew fileoff page (vaddr mod page) = Inr f0"
        and n: "nonbss_loop page end i vaddr f0 ctx = Inr (i1, v1, f1, c1)"
        and b: "bss_loop page end i1 v1 f1 c1 = Inr (i2, v2, f2, c2)"
        and rec: "osec_loop page end i2 v2 f2 c2 = Inr (i', fileoff', ctx')"
      by (auto simp: osec_loop.simps [of page "end" i] split: sum.splits prod.splits)
    have "f0 mod page = vaddr mod page"
      using align_with_skew_cong [OF pw f0] .
    from nonbss_loop_inv [OF pw al en inv this n] have inv1: "layout_inv page ctx0 i1 c1" ..
    from bss_loop_inv [OF pw al en inv1 b] have inv2: "layout_inv page ctx0 i2 c2" .
    from "1.IH" [OF True f0 n refl refl refl b refl refl refl pw al en inv2 rec]
    show ?thesis .
  qed
qed

lemma tail_loop_frame:
  assumes "tail_loop i fileoff ctx = Inr (fileoff', ctx')"
  shows "chunks ctx' = chunks ctx \<and>
         (\<forall>q. static (chunk_at ctx' q) = static (chunk_at ctx q)) \<and>
         (\<forall>q. is_alloc (chunk_at ctx q) \<longrightarrow> chunk_at ctx' q = chunk_at ctx q) \<and>
         (\<forall>j. i \<le> j \<and> j < length (chunks ctx) \<longrightarrow> \<not> is_alloc (chunk_at ctx (chunks ctx ! j)))"
  using assms
proof (induction i fileoff ctx rule: tail_loop.induct)
  case (1 i fileoff ctx)
  note run = "1.prems"
  show ?case
  proof (cases "i < length (chunks ctx)")
    case False
    with run show ?thesis by (auto simp: tail_loop.simps [of i])
  next
    case True
    let ?p = "chunks ctx ! i"
    let ?chunk = "chunk_at ctx ?p"
    from run True have na: "\<not> is_alloc ?chunk"
      by (auto simp: tail_loop.simps [of i] Let_def split: if_splits)
    with run True obtain f where f: "align_to fileoff (sh_addralign (shdr ?chunk)) = Inr f"
      by (auto simp: tail_loop.simps [of i] Let_def split: sum.splits)
    let ?ctx1 = "set_offset ctx ?p f"
    from run True na f
    have rec: "tail_loop (i + 1) (f + sh_size (shdr ?chunk)) ?ctx1 = Inr (fileoff', ctx')"
      by (simp add: tail_loop.simps [of i] Let_def)
    from "1.IH" [OF True refl refl na f rec]
    have ih: "chunks ctx' = chunks ?ctx1"
      "\<And>q. static (chunk_at ctx' q) = static (chunk_at ?ctx1 q)"
      "\<And>q. is_alloc (chunk_at ?ctx1 q) \<Longrightarrow> chunk_at ctx' q = chunk_at ?ctx1 q"
      "\<And>j. i + 1 \<le> j \<Longrightarrow> j < length (chunks ?ctx1) \<Longrightarrow> \<not> is_alloc (chunk_at ?ctx1 (chunks ?ctx1 ! j))"
      by blast+
    have al1: "is_alloc (chunk_at ?ctx1 q) = is_alloc (chunk_at ctx q)" for q
      by (rule static_is_alloc) (simp add: set_offset_simps)
    have a: "chunks ctx' = chunks ctx" using ih(1) by (simp add: set_offset_simps)
    have b: "static (chunk_at ctx' q) = static (chunk_at ctx q)" for q
      using ih(2) [of q] by (simp add: set_offset_simps)
    have c: "chunk_at ctx' q = chunk_at ctx q" if "is_alloc (chunk_at ctx q)" for q
    proof -
      from that na have "q \<noteq> ?p" by auto
      then have "chunk_at ?ctx1 q = chunk_at ctx q" by (simp add: set_offset_simps)
      with ih(3) [of q] that al1 [of q] show ?thesis by simp
    qed
    have d: "\<not> is_alloc (chunk_at ctx (chunks ctx ! j))" if "i \<le> j" "j < length (chunks ctx)" for j
    proof (cases "j = i")
      case True
      with na show ?thesis by simp
    next
      case False
      with that have "i + 1 \<le> j" by simp
      from ih(4) [OF this] that(2) show ?thesis
        by (simp add: set_offset_simps al1)
    qed
    from a b c d show ?thesis by blast
  qed
qed

lemma find_end_bound: "find_end ctx e = Inr n \<Longrightarrow> n < length (chunks ctx)"
proof (induction ctx e rule: find_end.induct)
  case (1 ctx e)
  then show ?case
    by (simp add: find_end.simps [of ctx e] split: if_splits)
qed

text \<open>
  Claim C2: when \<open>set_osec_offsets\<close> returns, every alloc chunk of \<open>ctx.chunks\<close> has
  its address congruent to its file offset modulo the page size, and its address is a
  multiple of its alignment, given that the page size and every \<open>sh_addralign\<close> are
  powers of two. (That the alloc chunks precede the other chunks need not be assumed:
  the assertion of the last loop fails otherwise, and the function does not return.)
\<close>

theorem set_osec_offsets_layout:
  assumes pw: "power_of_two page" and al: "aligns_ok ctx"
    and run: "set_osec_offsets page ctx = Inr (filesize, ctx')"
  shows "\<forall>p \<in> set (chunks ctx'). is_alloc (chunk_at ctx' p) \<longrightarrow>
           sh_addr (shdr (chunk_at ctx' p)) mod page = sh_offset (shdr (chunk_at ctx' p)) mod page \<and>
           sh_addr (shdr (chunk_at ctx' p)) mod sh_addralign (shdr (chunk_at ctx' p)) = 0"
proof -
  from run obtain e i f ctx1 where e: "find_end ctx 0 = Inr e"
    and o: "osec_loop page e 0 (image_base ctx) 0 ctx = Inr (i, f, ctx1)"
    and t: "tail_loop i f ctx1 = Inr (filesize, ctx')"
    by (auto simp: set_osec_offsets_def split: sum.splits prod.splits)
  from find_end_bound [OF e] have en: "e \<le> length (chunks ctx)" by simp
  have "layout_inv page ctx 0 ctx" by (simp add: layout_inv_def)
  from osec_loop_inv [OF pw al en this o] have inv: "layout_inv page ctx i ctx1" .
  note fr = tail_loop_frame [OF t]
  have "placed page (chunk_at ctx' p)" if p: "p \<in> set (chunks ctx')" and a: "is_alloc (chunk_at ctx' p)" for p
  proof -
    from fr have c: "chunks ctx' = chunks ctx1" by blast
    from p c obtain j where j: "j < length (chunks ctx1)" "chunks ctx1 ! j = p"
      by (auto simp: in_set_conv_nth)
    from fr have "static (chunk_at ctx' p) = static (chunk_at ctx1 p)" by blast
    with a have a1: "is_alloc (chunk_at ctx1 p)" using static_is_alloc by blast
    with fr j have "j < i" by (meson not_le_imp_less)
    with inv j have "placed page (chunk_at ctx1 p)" by (auto simp: layout_inv_def)
    moreover from fr a1 have "chunk_at ctx' p = chunk_at ctx1 p" by blast
    ultimately show ?thesis by simp
  qed
  then show ?thesis by (auto simp: placed_def)
qed


theorem set_osec_offsets_layout_witness:
  "power_of_two 4096 \<and> aligns_ok example_ctx \<and>
   (\<exists>filesize ctx'.
      set_osec_offsets 4096 example_ctx = Inr (filesize, ctx') \<and>
      filesize = 0x3198 \<and>
      map (\<lambda>p. (sh_addr (shdr (chunk_at ctx' p)), sh_offset (shdr (chunk_at ctx' p))))
        (chunks ctx')
        = [(0x200000, 0), (0x201000, 0x1000), (0x202000, 0x2000), (0x202020, 0x2020),
           (0x203000, 0x3000), (0, 0x3018)] \<and>
      sh_addr (shdr (chunk_at ctx' 3)) mod 4096 = sh_offset (shdr (chunk_at ctx' 3)) mod 4096 \<and>
      sh_addr (shdr (chunk_at ctx' 3)) mod sh_addralign (shdr (chunk_at ctx' 3)) = 0)"
proof -
  have pw: "power_of_two 4096" by code_simp
  have al: "aligns_ok example_ctx" by code_simp
  have ev: "(case set_osec_offsets 4096 example_ctx of
              Inl e \<Rightarrow> None
            | Inr (sz, c) \<Rightarrow> Some (sz,
                map (\<lambda>p. (sh_addr (shdr (chunk_at c p)), sh_offset (shdr (chunk_at c p)))) (chunks c),
                chunks c, is_alloc (chunk_at c 3)))
      = Some (0x3198, [(0x200000, 0), (0x201000, 0x1000), (0x202000, 0x2000), (0x202020, 0x2020),
           (0x203000, 0x3000), (0, 0x3018)], [0, 1, 2, 3, 4, 5], True)"
    by code_simp
  then obtain sz c where run: "set_osec_offsets 4096 example_ctx = Inr (sz, c)"
    and r: "sz = 0x3198"
      "map (\<lambda>p. (sh_addr (shdr (chunk_at c p)), sh_offset (shdr (chunk_at c p)))) (chunks c)
        = [(0x200000, 0), (0x201000, 0x1000), (0x202000, 0x2000), (0x202020, 0x2020),
           (0x203000, 0x3000), (0, 0x3018)]"
      "chunks c = [0, 1, 2, 3, 4, 5]" "is_alloc (chunk_at c 3)"
    by (auto split: sum.splits prod.splits)
  from set_osec_offsets_layout [OF pw al run] r(3,4)
  have "sh_addr (shdr (chunk_at c 3)) mod 4096 = sh_offset (shdr (chunk_at c 3)) mod 4096 \<and>
        sh_addr (shdr (chunk_at c 3)) mod sh_addralign (shdr (chunk_at c 3)) = 0"
    by simp
  with run r have "\<exists>filesize ctx'.
      set_osec_offsets 4096 example_ctx = Inr (filesize, ctx') \<and>
      filesize = 0x3198 \<and>
      map (\<lambda>p. (sh_addr (shdr (chunk_at ctx' p)), sh_offset (shdr (chunk_at ctx' p))))
        (chunks ctx')
        = [(0x200000, 0), (0x201000, 0x1000), (0x202000, 0x2000), (0x202020, 0x2020),
           (0x203000, 0x3000), (0, 0x3018)] \<and>
      sh_addr (shdr (chunk_at ctx' 3)) mod 4096 = sh_offset (shdr (chunk_at ctx' 3)) mod 4096 \<and>
      sh_addr (shdr (chunk_at ctx' 3)) mod sh_addralign (shdr (chunk_at ctx' 3)) = 0"
    by (intro exI [of _ sz] exI [of _ c]) simp
  with pw al show ?thesis by simp
qed

section \<open>Splitting mergeable sections\<close>

definition SHF_MERGE :: u64 where "SHF_MERGE = 0x10"
definition SHF_STRINGS :: u64 where "SHF_STRINGS = 0x20"
definition UINT16_MAX :: u64 where "UINT16_MAX = 65535"

text \<open>
  A \<open>std::string_view\<close> is the list of its bytes. \<open>substr(pos, n)\<close> and
  \<open>substr(pos)\<close> throw \<open>std::out_of_range\<close> when \<open>pos\<close> is greater than the size; the
  program is built with \<open>-fno-exceptions\<close>, so this ends the link (\<open>OutOfRange\<close>).
  \<open>Fatal\<close> carries the message the program prints after the name of the section.
  \<^verbatim>\<open>
  static size_t find_null(std::string_view data, u64 entsize) {
    if (entsize == 1)
      return data.find('\0');

    for (i64 i = 0; i <= data.size() - entsize; i += entsize)
      if (data.substr(i, i + entsize).find_first_not_of('\0') == data.npos)
        return i;

    return data.npos;
  }
  \<close>
  The comparison \<open>i <= data.size() - entsize\<close> is one of unsigned 64-bit integers, and
  the subtraction wraps around. The result \<open>npos\<close> is \<open>None\<close>. An index that would
  not advance (\<open>entsize\<close> is 0, or the addition wraps around) is \<open>NoProgress\<close>: the
  loop of the program would not end there.
\<close>

datatype split_error = Fatal string | OutOfRange | DivisionByZero | NoProgress

definition substr :: "u8 list \<Rightarrow> nat \<Rightarrow> nat \<Rightarrow> split_error + u8 list" where
  "substr data pos n = (if length data < pos then Inl OutOfRange else Inr (take n (drop pos data)))"

definition substr_from :: "u8 list \<Rightarrow> nat \<Rightarrow> split_error + u8 list" where
  "substr_from data pos = (if length data < pos then Inl OutOfRange else Inr (drop pos data))"

definition all_null :: "u8 list \<Rightarrow> bool" where
  "all_null s = (\<forall>c \<in> set s. c = 0)"

fun find_char :: "u8 list \<Rightarrow> u8 \<Rightarrow> nat \<Rightarrow> nat option" where
  "find_char [] c i = None"
| "find_char (x # xs) c i = (if x = c then Some i else find_char xs c (i + 1))"

function find_null_loop :: "u8 list \<Rightarrow> u64 \<Rightarrow> u64 \<Rightarrow> split_error + nat option" where
  "find_null_loop data entsize i =
     (if i \<le> of_nat (length data) - entsize then
        case substr data (unat i) (unat (i + entsize)) of
          Inl e \<Rightarrow> Inl e
        | Inr s \<Rightarrow>
            if all_null s then Inr (Some (unat i))
            else if i + entsize \<le> i then Inl NoProgress
            else find_null_loop data entsize (i + entsize)
      else Inr None)"
  by pat_completeness auto
termination
proof (relation "measure (\<lambda>(data, entsize, i). length data + 1 - unat i)")
  show "wf (measure (\<lambda>(data, entsize, i). length data + 1 - unat i))" by simp
next
  fix data :: "u8 list" and entsize i :: u64 and s
  assume s: "substr data (unat i) (unat (i + entsize)) = Inr s"
    and adv: "\<not> i + entsize \<le> i"
  from s have "unat i \<le> length data" by (simp add: substr_def split: if_splits)
  moreover from adv have "unat i < unat (i + entsize)" by (simp add: word_less_nat_alt not_le)
  ultimately show "((data, entsize, i + entsize), (data, entsize, i))
      \<in> measure (\<lambda>(data, entsize, i). length data + 1 - unat i)"
    by simp
qed

definition find_null :: "u8 list \<Rightarrow> u64 \<Rightarrow> split_error + nat option" where
  "find_null data entsize =
     (if entsize = 1 then Inr (find_char data 0 0)
      else find_null_loop data entsize 0)"

text \<open>
  \<^verbatim>\<open>
  split_section(Context<E> &ctx, InputSection<E> &sec) {
    std::unique_ptr<MergeableSection<E>> rec(new MergeableSection<E>);
    ...
    std::string_view data = sec.contents;
    const char *begin = data.data();
    u64 entsize = sec.shdr.sh_entsize;

    if (sec.shdr.sh_addralign >= UINT16_MAX)
      Fatal(ctx) << sec << ": alignment too large";

    if (sec.shdr.sh_flags & SHF_STRINGS) {
      while (!data.empty()) {
        size_t end = find_null(data, entsize);
        if (end == data.npos)
          Fatal(ctx) << sec << ": string is not null terminated";

        std::string_view substr = data.substr(0, end + entsize);
        data = data.substr(end + entsize);

        rec->strings.push_back(substr);
        rec->frag_offsets.push_back(substr.data() - begin);
        ...
      }
    } else {
      if (data.size() % entsize)
        Fatal(ctx) << sec << ": section size is not multiple of sh_entsize";

      while (!data.empty()) {
        std::string_view substr = data.substr(0, entsize);
        data = data.substr(entsize);

        rec->strings.push_back(substr);
        rec->frag_offsets.push_back(substr.data() - begin);
        ...
      }
    }
    return rec;
  }
  \<close>
  The hashes of the fragments and the cardinality estimator are left out: they do not
  change the fragments. \<open>off\<close> is \<open>data.data() - begin\<close>.
\<close>

record MergeableSection =
  strings :: "u8 list list"
  frag_offsets :: "nat list"

function split_strings ::
  "u8 list \<Rightarrow> u64 \<Rightarrow> nat \<Rightarrow> MergeableSection \<Rightarrow> split_error + MergeableSection" where
  "split_strings data entsize off rec =
     (if data = [] then Inr rec
      else
        case find_null data entsize of
          Inl e \<Rightarrow> Inl e
        | Inr None \<Rightarrow> Inl (Fatal '': string is not null terminated'')
        | Inr (Some end) \<Rightarrow>
            let n = unat (of_nat end + entsize) in
            (case substr_from data n of
               Inl e \<Rightarrow> Inl e
             | Inr rest \<Rightarrow>
                 if n = 0 then Inl NoProgress
                 else split_strings rest entsize (off + n)
                        (rec\<lparr>strings := strings rec @ [take n data],
                             frag_offsets := frag_offsets rec @ [off]\<rparr>)))"
  by pat_completeness auto
termination
  by (relation "measure (\<lambda>(data, entsize, off, rec). length data)")
     (auto simp: substr_from_def split: if_splits)

function split_records ::
  "u8 list \<Rightarrow> u64 \<Rightarrow> nat \<Rightarrow> MergeableSection \<Rightarrow> split_error + MergeableSection" where
  "split_records data entsize off rec =
     (if data = [] then Inr rec
      else
        case substr_from data (unat entsize) of
          Inl e \<Rightarrow> Inl e
        | Inr rest \<Rightarrow>
            if entsize = 0 then Inl NoProgress
            else split_records rest entsize (off + unat entsize)
                   (rec\<lparr>strings := strings rec @ [take (unat entsize) data],
                        frag_offsets := frag_offsets rec @ [off]\<rparr>))"
  by pat_completeness auto
termination
  by (relation "measure (\<lambda>(data, entsize, off, rec). length data)")
     (auto simp: substr_from_def unat_gt_0 split: if_splits)

definition split_section :: "ElfShdr \<Rightarrow> u8 list \<Rightarrow> split_error + MergeableSection" where
  "split_section sec_shdr contents =
     (let entsize = sh_entsize sec_shdr in
      if UINT16_MAX \<le> sh_addralign sec_shdr then Inl (Fatal '': alignment too large'')
      else if sh_flags sec_shdr AND SHF_STRINGS \<noteq> 0 then
        split_strings contents entsize 0 \<lparr>strings = [], frag_offsets = []\<rparr>
      else if entsize = 0 then Inl DivisionByZero
      else if (of_nat (length contents) :: u64) mod entsize \<noteq> 0 then
        Inl (Fatal '': section size is not multiple of sh_entsize'')
      else split_records contents entsize 0 \<lparr>strings = [], frag_offsets = []\<rparr>)"

text \<open>
  The words of the specification: a run of \<open>entsize\<close> consecutive null bytes begins at
  the offset \<open>e\<close> of the data, a multiple of \<open>entsize\<close>.
\<close>

definition null_run_at :: "u8 list \<Rightarrow> nat \<Rightarrow> nat \<Rightarrow> bool" where
  "null_run_at data entsize e =
     (e mod entsize = 0 \<and> e + entsize \<le> length data \<and> all_null (take entsize (drop e data)))"

text \<open>
  Claim C9 (every fragment of a string section ends with the first run of \<open>entsize\<close>
  null bytes at a multiple of \<open>entsize\<close>) fails on the code for \<open>entsize = 2\<close> and the
  two UTF-16 strings \<open>a\<close> and \<open>b\<close> with their terminators, the bytes
  \<open>61 00 00 00 62 00 00 00\<close>. \<open>find_null\<close> tests \<open>data.substr(i, i + entsize)\<close>, whose
  second argument is a length: at \<open>i = 2\<close> it looks at four bytes, not two, and does not
  see the terminator at offset 2. It returns 6, and the section is split into one
  fragment of eight bytes instead of two fragments of four bytes.
\<close>

theorem split_section_utf16_two_strings:
  "null_run_at [0x61, 0, 0, 0, 0x62, 0, 0, 0] 2 2 \<and>
   find_null [0x61, 0, 0, 0, 0x62, 0, 0, 0] 2 = Inr (Some 6) \<and>
   split_section
     \<lparr>sh_type = 1, sh_flags = SHF_MERGE OR SHF_STRINGS, sh_addr = 0, sh_offset = 0,
      sh_size = 8, sh_addralign = 2, sh_entsize = 2\<rparr>
     [0x61, 0, 0, 0, 0x62, 0, 0, 0]
   = Inr \<lparr>strings = [[0x61, 0, 0, 0, 0x62, 0, 0, 0]], frag_offsets = [0]\<rparr>"
  by code_simp

section \<open>The concurrent map\<close>

text \<open>
  \<^verbatim>\<open>
  template <typename T>
  class ConcurrentMap {
    void resize(i64 nbuckets) {
      this->~ConcurrentMap();
      nbuckets = std::max<i64>(MIN_NBUCKETS, next_power_of_two(nbuckets));
      this->nbuckets = nbuckets;
      keys = (std::atomic<const char *> *)calloc(nbuckets, sizeof(keys[0]));
      sizes = (u32 *)calloc(nbuckets, sizeof(sizes[0]));
      values = (T *)calloc(nbuckets, sizeof(values[0]));
    }

    std::pair<T *, bool> insert(std::string_view key, u64 hash, const T &val) {
      if (!keys)
        return {nullptr, false};

      assert(__builtin_popcount(nbuckets) == 1);
      i64 idx = hash & (nbuckets - 1);
      i64 retry = 0;

      while (retry < MAX_RETRY) {
        const char *ptr = keys[idx];
        if (ptr == locked) {
          asm volatile("pause" ::: "memory");
          continue;
        }

        if (ptr == nullptr) {
          if (!keys[idx].compare_exchange_weak(ptr, locked))
            continue;
          new (values + idx) T(val);
          sizes[idx] = key.size();
          keys[idx] = key.data();
          return {values + idx, true};
        }

        if (key.size() == sizes[idx] && memcmp(ptr, key.data(), sizes[idx]) == 0)
          return {values + idx, false};

        u64 mask = nbuckets / NUM_SHARDS - 1;
        idx = (idx & ~mask) | ((idx + 1) & mask);
        retry++;
      }

      assert(false && "ConcurrentMap is full");
      return {nullptr, false};
    }

    static constexpr i64 MIN_NBUCKETS = 2048;
    static constexpr i64 NUM_SHARDS = 16;
    static constexpr i64 MAX_RETRY = 128;

    i64 nbuckets = 0;
    std::atomic<const char *> *keys = nullptr;
    u32 *sizes = nullptr;
    T *values = nullptr;
  };
  \<close>
  The model is that of one thread. A \<open>std::string_view\<close> is a pointer and a size:
  \<open>NullView\<close> is the view whose \<open>data()\<close> is the null pointer and whose size is 0
  (what \<open>std::string_view()\<close> gives), and \<open>View bs\<close> is a view whose \<open>data()\<close>
  points to the bytes \<open>bs\<close>. A bucket of \<open>keys\<close> is null (\<open>Empty\<close>), the
  marker \<open>locked\<close>, or a pointer to the bytes of a key, which are never changed once
  the bucket is filled: the bucket holds the bytes. \<open>keys[idx] = key.data()\<close> stores
  the pointer of the view, so storing the null view leaves the bucket null
  (\<open>stored_ptr\<close>). No key points to the marker. \<open>sizes\<close> holds 32-bit sizes, so
  \<open>sizes[idx] = key.size()\<close> truncates. A bucket of \<open>values\<close> is \<open>None\<close> until a
  value is constructed there; the pointer \<open>values + idx\<close> is the index \<open>idx\<close>, and
  \<open>nullptr\<close> is \<open>None\<close>. A thread that finds a bucket locked waits for another thread
  to fill it: alone it waits forever (\<open>Spins\<close>). The compare-and-exchange of a single
  thread succeeds. The program is built without \<open>NDEBUG\<close>, so a failed \<open>assert\<close>
  ends the link (\<open>Aborts\<close>, with the text of the assertion); an index outside the
  arrays is \<open>BucketOutOfRange\<close>.
\<close>

datatype string_view = NullView | View "u8 list"

fun sv_size :: "string_view \<Rightarrow> nat" where
  "sv_size NullView = 0"
| "sv_size (View bs) = length bs"

fun sv_bytes :: "string_view \<Rightarrow> u8 list" where
  "sv_bytes NullView = []"
| "sv_bytes (View bs) = bs"

datatype slot = Empty | Locked | Key "u8 list"

fun stored_ptr :: "string_view \<Rightarrow> slot" where
  "stored_ptr NullView = Empty"
| "stored_ptr (View bs) = Key bs"

record 'v ConcurrentMap =
  nbuckets :: u64
  keys :: "slot list option"
  sizes :: "u32 list"
  vals :: "'v option list"

datatype 'v insert_result =
    Returns "nat option" bool "'v ConcurrentMap"
  | Aborts string
  | BucketOutOfRange
  | Spins

definition NUM_SHARDS :: int where "NUM_SHARDS = 16"
definition MAX_RETRY :: nat where "MAX_RETRY = 128"

definition next_idx :: "u64 \<Rightarrow> u64 \<Rightarrow> u64" where
  "next_idx nb idx =
     (let mask = (word_of_int (sint nb sdiv NUM_SHARDS) :: u64) - 1 in (idx AND NOT mask) OR ((idx + 1) AND mask))"

definition key_matches :: "string_view \<Rightarrow> u32 \<Rightarrow> u8 list \<Rightarrow> bool" where
  "key_matches key sz ptr =
     ((of_nat (sv_size key) :: u64) = ucast sz \<and>
      take (unat sz) ptr = take (unat sz) (sv_bytes key))"

function insert_loop ::
  "'v ConcurrentMap \<Rightarrow> slot list \<Rightarrow> string_view \<Rightarrow> 'v \<Rightarrow> u64 \<Rightarrow> nat \<Rightarrow> 'v insert_result" where
  "insert_loop m ks key val idx retry =
     (if retry < MAX_RETRY then
        if \<not> (unat idx < length ks \<and> unat idx < length (sizes m) \<and> unat idx < length (vals m))
        then BucketOutOfRange
        else
          case ks ! unat idx of
            Locked \<Rightarrow> Spins
          | Empty \<Rightarrow>
              Returns (Some (unat idx)) True
                (m\<lparr>vals := (vals m)[unat idx := Some val],
                   sizes := (sizes m)[unat idx := of_nat (sv_size key)],
                   keys := Some (ks[unat idx := stored_ptr key])\<rparr>)
          | Key ptr \<Rightarrow>
              if key_matches key (sizes m ! unat idx) ptr
              then Returns (Some (unat idx)) False m
              else insert_loop m ks key val (next_idx (nbuckets m) idx) (retry + 1)
      else Aborts ''ConcurrentMap is full'')"
  by pat_completeness auto
termination
  by (relation "measure (\<lambda>(m, ks, key, val, idx, retry). MAX_RETRY - retry)") auto

definition insert :: "'v ConcurrentMap \<Rightarrow> string_view \<Rightarrow> u64 \<Rightarrow> 'v \<Rightarrow> 'v insert_result" where
  "insert m key hash val =
     (case keys m of
        None \<Rightarrow> Returns None False m
      | Some ks \<Rightarrow>
          if popcount32 (ucast (nbuckets m)) \<noteq> 1 then Aborts ''__builtin_popcount(nbuckets) == 1''
          else insert_loop m ks key val (hash AND (nbuckets m - 1)) 0)"









subsection \<open>The probe sequence\<close>

declare insert_loop.simps [simp del]

fun probe :: "u64 \<Rightarrow> u64 \<Rightarrow> nat \<Rightarrow> u64" where
  "probe nb idx 0 = idx"
| "probe nb idx (Suc k) = probe nb (next_idx nb idx) k"

definition occupied_by_other :: "'v ConcurrentMap \<Rightarrow> slot list \<Rightarrow> string_view \<Rightarrow> u64 \<Rightarrow> bool" where
  "occupied_by_other m ks key idx =
     (unat idx < length ks \<and> unat idx < length (sizes m) \<and> unat idx < length (vals m) \<and>
      (case ks ! unat idx of
         Key ptr \<Rightarrow> \<not> key_matches key (sizes m ! unat idx) ptr
       | _ \<Rightarrow> False))"

definition all_probes_occupied :: "'v ConcurrentMap \<Rightarrow> slot list \<Rightarrow> string_view \<Rightarrow> u64 \<Rightarrow> bool" where
  "all_probes_occupied m ks key hash =
     list_all (\<lambda>k. occupied_by_other m ks key (probe (nbuckets m) (hash AND (nbuckets m - 1)) k))
       [0..<MAX_RETRY]"


definition frozen :: "'v ConcurrentMap \<Rightarrow> 'v ConcurrentMap \<Rightarrow> bool" where
  "frozen m m' =
     (nbuckets m' = nbuckets m \<and>
      (case keys m of
         None \<Rightarrow> m' = m
       | Some ks \<Rightarrow>
           (\<exists>ks'. keys m' = Some ks' \<and> length ks' = length ks \<and>
              length (sizes m') = length (sizes m) \<and> length (vals m') = length (vals m) \<and>
              (\<forall>i < length ks. ks ! i \<noteq> Empty \<longrightarrow>
                 ks' ! i = ks ! i \<and> sizes m' ! i = sizes m ! i))))"

lemma frozen_refl: "frozen m m"
  by (auto simp: frozen_def split: option.splits)


lemma insert_loop_frozen:
  assumes "insert_loop m ks key val idx retry = Returns p b m1" "keys m = Some ks"
  shows "frozen m m1 \<and> p \<noteq> None"
  using assms
proof (induction m ks key val idx retry rule: insert_loop.induct)
  case (1 m ks key val idx retry)
  show ?case
  proof (cases "ks ! unat idx")
    case Empty
    with "1.prems" show ?thesis
      by (auto simp: insert_loop.simps [of m ks key val idx retry] frozen_def nth_list_update
          split: if_splits)
  next
    case Locked
    with "1.prems" show ?thesis
      by (auto simp: insert_loop.simps [of m ks key val idx retry] split: if_splits)
  next
    case (Key ptr)
    show ?thesis
    proof (cases "key_matches key (sizes m ! unat idx) ptr")
      case True
      with "1.prems" Key show ?thesis
        by (auto simp: insert_loop.simps [of m ks key val idx retry] frozen_refl split: if_splits)
    next
      case False
      from "1.prems"(1) have r: "retry < MAX_RETRY"
        and bd: "unat idx < length ks \<and> unat idx < length (sizes m) \<and> unat idx < length (vals m)"
        by (auto simp: insert_loop.simps [of m ks key val idx retry] split: if_splits)
      with "1.prems"(1) Key False
      have "insert_loop m ks key val (next_idx (nbuckets m) idx) (retry + 1) = Returns p b m1"
        by (simp add: insert_loop.simps [of m ks key val idx retry])
      with "1.IH" [OF r _ Key False] bd "1.prems"(2) show ?thesis by simp
    qed
  qed
qed




















subsection \<open>A full shard\<close>

lemma insert_loop_full:
  assumes "list_all (\<lambda>k. occupied_by_other m ks key (probe (nbuckets m) idx k)) [0..<MAX_RETRY - retry]"
  shows "insert_loop m ks key val idx retry = Aborts ''ConcurrentMap is full''"
  using assms
proof (induction m ks key val idx retry rule: insert_loop.induct)
  case (1 m ks key val idx retry)
  show ?case
  proof (cases "retry < MAX_RETRY")
    case False
    then show ?thesis by (simp add: insert_loop.simps [of m ks key val idx retry])
  next
    case True
    then obtain n where n: "MAX_RETRY - retry = Suc n" "MAX_RETRY - (retry + 1) = n"
      by (cases "MAX_RETRY - retry") auto
    from "1.prems" have all: "\<And>k. k < Suc n \<Longrightarrow> occupied_by_other m ks key (probe (nbuckets m) idx k)"
      unfolding n list_all_iff by (auto simp del: upt_Suc)
    from all [of 0] obtain ptr where bd: "unat idx < length ks \<and> unat idx < length (sizes m) \<and> unat idx < length (vals m)"
      and k: "ks ! unat idx = Key ptr" and nm: "\<not> key_matches key (sizes m ! unat idx) ptr"
      by (auto simp: occupied_by_other_def split: slot.splits)
    have "list_all (\<lambda>k. occupied_by_other m ks key (probe (nbuckets m) (next_idx (nbuckets m) idx) k))
        [0..<MAX_RETRY - (retry + 1)]"
      unfolding n list_all_iff using all [of "Suc k" for k] by (auto simp del: upt_Suc)
    from "1.IH" [OF True _ k nm this] bd
    have "insert_loop m ks key val (next_idx (nbuckets m) idx) (retry + 1)
        = Aborts ''ConcurrentMap is full''" by simp
    with True bd k nm show ?thesis
      by (simp add: insert_loop.simps [of m ks key val idx retry])
  qed
qed

lemma next_idx_same_shard:
  "next_idx nb idx AND NOT (word_of_int (sint nb sdiv NUM_SHARDS) - 1)
   = idx AND NOT (word_of_int (sint nb sdiv NUM_SHARDS) - 1)"
  unfolding next_idx_def Let_def
  by (intro bit_word_eqI) (auto simp: bit_simps)

lemma probe_same_shard:
  "probe nb idx k AND NOT (word_of_int (sint nb sdiv NUM_SHARDS) - 1)
   = idx AND NOT (word_of_int (sint nb sdiv NUM_SHARDS) - 1)"
  by (induction k arbitrary: idx) (simp_all add: next_idx_same_shard)


text \<open>
  Claim C8: on an initialized map whose size passes the first assertion, when each of
  the \<open>MAX_RETRY\<close> probed buckets holds a key that is not equal to the inserted one,
  \<open>insert\<close> ends the link with the failed assertion \<open>ConcurrentMap is full\<close>; when
  \<open>insert\<close> returns, the pointer it returns is not null; and every probed bucket is
  in the shard of the first one (the bits of the index above the shard mask do not
  change).
\<close>

theorem insert_full_is_fatal:
  assumes "keys m = Some ks" and "popcount32 (ucast (nbuckets m)) = 1"
  shows "(all_probes_occupied m ks key hash \<longrightarrow>
            insert m key hash val = Aborts ''ConcurrentMap is full'') \<and>
         (\<forall>p b m'. insert m key hash val = Returns p b m' \<longrightarrow> p \<noteq> None) \<and>
         (\<forall>k. probe (nbuckets m) (hash AND (nbuckets m - 1)) k
                 AND NOT (word_of_int (sint (nbuckets m) sdiv NUM_SHARDS) - 1)
               = (hash AND (nbuckets m - 1))
                 AND NOT (word_of_int (sint (nbuckets m) sdiv NUM_SHARDS) - 1))"
proof (intro conjI impI allI)
  assume "all_probes_occupied m ks key hash"
  then have "insert_loop m ks key val (hash AND (nbuckets m - 1)) 0
      = Aborts ''ConcurrentMap is full''"
    by (intro insert_loop_full) (simp add: all_probes_occupied_def)
  with assms show "insert m key hash val = Aborts ''ConcurrentMap is full''"
    by (simp add: insert_def)
next
  fix p b m'
  assume "insert m key hash val = Returns p b m'"
  with assms have "insert_loop m ks key val (hash AND (nbuckets m - 1)) 0 = Returns p b m'"
    by (simp add: insert_def)
  from insert_loop_frozen [OF this assms(1)] show "p \<noteq> None" by simp
next
  fix k
  show "probe (nbuckets m) (hash AND (nbuckets m - 1)) k
                 AND NOT (word_of_int (sint (nbuckets m) sdiv NUM_SHARDS) - 1)
               = (hash AND (nbuckets m - 1))
                 AND NOT (word_of_int (sint (nbuckets m) sdiv NUM_SHARDS) - 1)"
    by (rule probe_same_shard)
qed

definition full_map :: "nat ConcurrentMap" where
  "full_map =
     \<lparr>nbuckets = 2048,
      keys = Some (map (\<lambda>i. Key [of_nat (i mod 256), of_nat (i div 256)]) [0..<2048]),
      sizes = replicate 2048 2,
      vals = map Some [0..<2048]\<rparr>"

lemma low_bits_bound:
  fixes x :: u64
  assumes "x AND NOT 127 = 0"
  shows "unat x < 128"
proof -
  have "x = (x AND 127) OR (x AND NOT 127)"
    by (intro bit_word_eqI) (auto simp: bit_simps)
  with assms have "x = x AND 127" by simp
  moreover have "x AND 127 \<le> 127" by (rule word_and_le1)
  ultimately have "x \<le> 127" by simp
  then show ?thesis by (simp add: word_le_nat_alt)
qed

lemma full_map_occupied:
  assumes "unat idx < 2048"
  shows "occupied_by_other full_map
           (map (\<lambda>i. Key [of_nat (i mod 256), of_nat (i div 256)]) [0..<2048]) (View [9, 9, 9]) idx"
  using assms by (simp add: occupied_by_other_def full_map_def key_matches_def)


theorem insert_full_is_fatal_witness:
  "keys full_map = Some (map (\<lambda>i. Key [of_nat (i mod 256), of_nat (i div 256)]) [0..<2048]) \<and>
   popcount32 (ucast (nbuckets full_map)) = 1 \<and>
   all_probes_occupied full_map
     (map (\<lambda>i. Key [of_nat (i mod 256), of_nat (i div 256)]) [0..<2048]) (View [9, 9, 9]) 5 \<and>
   insert full_map (View [9, 9, 9]) 5 7 = Aborts ''ConcurrentMap is full''"
proof -
  let ?ks = "map (\<lambda>i. Key [of_nat (i mod 256), of_nat (i div 256)]) [0..<2048]"
  have k: "keys full_map = Some ?ks" by (simp add: full_map_def)
  have nb: "nbuckets full_map = 2048" by (simp add: full_map_def)
  have pc: "popcount32 (ucast (nbuckets full_map)) = 1" unfolding nb by code_simp
  have m: "(word_of_int (sint (2048 :: u64) sdiv NUM_SHARDS) :: u64) - 1 = 127"
    by (simp add: NUM_SHARDS_def)
  have h: "(5 :: u64) AND (2048 - 1) = 5" "(5 :: u64) AND NOT 127 = 0" by simp_all
  note th = insert_full_is_fatal [OF k pc, of "View [9, 9, 9]" 5 7]
  have "unat (probe 2048 5 j) < 2048" for j
  proof -
    from th have "probe 2048 5 j AND NOT 127 = 0"
      unfolding nb m h by simp
    from low_bits_bound [OF this] show ?thesis by simp
  qed
  then have occ: "all_probes_occupied full_map ?ks (View [9, 9, 9]) 5"
    unfolding all_probes_occupied_def list_all_iff nb h
    by (intro ballI full_map_occupied)
  with th have "insert full_map (View [9, 9, 9]) 5 7 = Aborts ''ConcurrentMap is full''"
    by blast
  with k pc occ show ?thesis by simp
qed

section \<open>Reading \<open>.eh_frame\<close>\<close>

text \<open>
  \<^verbatim>\<open>
  template <typename E>
  void ObjectFile<E>::read_ehframe(Context<E> &ctx, InputSection<E> &isec) {
    std::span<ElfRel<E>> rels = isec.get_rels(ctx);
    i64 cies_begin = cies.size();
    i64 fdes_begin = fdes.size();

    // Verify relocations.
    for (i64 i = 1; i < rels.size(); i++)
      if (rels[i].r_type != E::R_NONE &&
          rels[i].r_offset <= rels[i - 1].r_offset)
        Fatal(ctx) << isec << ": relocation offsets must increase monotonically";

    // Read CIEs and FDEs until empty.
    std::string_view contents = this->get_string(ctx, isec.shdr);
    i64 rel_idx = 0;

    for (std::string_view data = contents; !data.empty();) {
      i64 size = *(u32 *)data.data();
      if (size == 0) {
        if (data.size() != 4)
          Fatal(ctx) << isec << ": garbage at end of section";
        break;
      }

      i64 begin_offset = data.data() - contents.data();
      i64 end_offset = begin_offset + size + 4;
      i64 id = *(u32 *)(data.data() + 4);
      data = data.substr(size + 4);

      i64 rel_begin = rel_idx;
      while (rel_idx < rels.size() && rels[rel_idx].r_offset < end_offset)
        rel_idx++;
      assert(rel_idx == rels.size() || begin_offset <= rels[rel_begin].r_offset);

      if (id == 0) {
        // This is CIE.
        cies.push_back(CieRecord<E>(ctx, *this, isec, begin_offset, rel_begin));
      } else {
        // This is FDE.
        if (rel_begin == rel_idx) {
          // FDE has no valid relocation, which means FDE is dead from
          // the beginning. Compilers usually don't create such FDE, but
          // `ld -r` tend to generate such dead FDEs.
          continue;
        }

        if (rels[rel_begin].r_offset - begin_offset != 8)
          Fatal(ctx) << isec << ": FDE's first relocation should have offset 8";

        fdes.push_back(FdeRecord<E>(begin_offset, rel_begin));
      }
    }
    ...
  \<close>
  This is the part of \<open>read_ehframe\<close> that reads the records: \<open>read_records\<close> is
  the loop over the records, \<open>read_record\<close> its body, \<open>scan_rels\<close> the inner loop,
  and \<open>read_ehframe_records\<close> the function up to the end of the loop, which gives the
  vectors \<open>cies\<close> and \<open>fdes\<close> as they are then. What follows in the function gives
  each new FDE the index of its CIE, sorts the new FDEs and gives them to their input
  sections.

  A relocation is that of the 64-bit ELF format, and \<open>R_NONE\<close> is 0. A CIE record and
  an FDE record hold the two numbers they are constructed from. \<open>data\<close> is the rest
  of \<open>contents\<close> from the offset \<open>off\<close>; the two words of a record are read in the
  byte order of x86-64. Reading a word beyond the end of the section is
  \<open>ReadPastEnd\<close>; \<open>substr\<close> beyond the end raises \<open>std::out_of_range\<close>, which ends
  the program (\<open>SubstrOutOfRange\<close>); \<open>Fatal\<close> ends the link with its message
  (\<open>EhFatal\<close>); the program is built without \<open>NDEBUG\<close>, so a failed \<open>assert\<close> ends
  it too (\<open>EhAssertionFailed\<close>).
\<close>

record ElfRel =
  r_offset :: u64
  r_type :: u32
  r_sym :: u32


record CieRecord =
  cie_input_offset :: nat
  cie_rel_idx :: nat

record FdeRecord =
  fde_input_offset :: nat
  fde_rel_idx :: nat

datatype ehframe_error = EhFatal string | ReadPastEnd | SubstrOutOfRange | EhAssertionFailed

definition read_u32 :: "u8 list \<Rightarrow> nat \<Rightarrow> u32 option" where
  "read_u32 data off =
     (if off + 4 \<le> length data
      then Some (ucast (data ! off) OR push_bit 8 (ucast (data ! (off + 1)))
                 OR push_bit 16 (ucast (data ! (off + 2))) OR push_bit 24 (ucast (data ! (off + 3))))
      else None)"


function scan_rels :: "ElfRel list \<Rightarrow> nat \<Rightarrow> nat \<Rightarrow> nat" where
  "scan_rels rels rel_idx end_offset =
     (if rel_idx < length rels \<and> unat (r_offset (rels ! rel_idx)) < end_offset
      then scan_rels rels (rel_idx + 1) end_offset
      else rel_idx)"
  by pat_completeness auto
termination
  by (relation "measure (\<lambda>(rels, rel_idx, end_offset). length rels - rel_idx)") auto

text \<open>
  The head of the record at \<open>off\<close>: \<open>None\<close> when the loop ends at a zero size,
  otherwise \<open>end_offset\<close> and \<open>id\<close>.
\<close>

definition record_header :: "u8 list \<Rightarrow> nat \<Rightarrow> ehframe_error + (nat \<times> u32) option" where
  "record_header contents off =
     (case read_u32 contents off of
        None \<Rightarrow> Inl ReadPastEnd
      | Some sz \<Rightarrow>
          if sz = 0 then
            (if length contents - off \<noteq> 4 then Inl (EhFatal '': garbage at end of section'')
             else Inr None)
          else
            case read_u32 contents (off + 4) of
              None \<Rightarrow> Inl ReadPastEnd
            | Some cie_id \<Rightarrow>
                if length contents - off < unat sz + 4 then Inl SubstrOutOfRange
                else Inr (Some (off + unat sz + 4, cie_id)))"

definition read_record ::
  "u8 list \<Rightarrow> ElfRel list \<Rightarrow> nat \<Rightarrow> nat \<Rightarrow> CieRecord list \<Rightarrow> FdeRecord list
     \<Rightarrow> ehframe_error + (nat \<times> nat \<times> CieRecord list \<times> FdeRecord list) option" where
  "read_record contents rels begin_offset rel_idx cies fdes =
     (case record_header contents begin_offset of
        Inl e \<Rightarrow> Inl e
      | Inr None \<Rightarrow> Inr None
      | Inr (Some (end_offset, cie_id)) \<Rightarrow>
          let rel_begin = rel_idx;
              rel_idx' = scan_rels rels rel_idx end_offset
          in
          if \<not> (rel_idx' = length rels \<or> begin_offset \<le> unat (r_offset (rels ! rel_begin)))
          then Inl EhAssertionFailed
          else if cie_id = 0 then
            Inr (Some (end_offset, rel_idx',
              cies @ [\<lparr>cie_input_offset = begin_offset, cie_rel_idx = rel_begin\<rparr>], fdes))
          else if rel_begin = rel_idx' then
            Inr (Some (end_offset, rel_idx', cies, fdes))
          else if r_offset (rels ! rel_begin) - of_nat begin_offset \<noteq> 8 then
            Inl (EhFatal '': FDE's first relocation should have offset 8'')
          else
            Inr (Some (end_offset, rel_idx', cies,
              fdes @ [\<lparr>fde_input_offset = begin_offset, fde_rel_idx = rel_begin\<rparr>])))"

lemma record_header_advances:
  "record_header contents off = Inr (Some (off', i)) \<Longrightarrow> off < off'"
  by (auto simp: record_header_def split: option.splits if_splits)

lemma read_record_advances:
  assumes "read_record contents rels off rel_idx cies fdes = Inr (Some (off', r))"
  shows "off < off'"
proof (cases "record_header contents off")
  case (Inl e)
  with assms show ?thesis by (simp add: read_record_def)
next
  case (Inr h)
  show ?thesis
  proof (cases h)
    case None
    with Inr assms show ?thesis by (simp add: read_record_def)
  next
    case (Some p)
    obtain e cie_id where p: "p = (e, cie_id)" by (cases p)
    from Inr Some p have "off < e" by (simp add: record_header_advances)
    moreover from assms Inr Some p have "off' = e"
      by (simp add: read_record_def Let_def split: if_splits)
    ultimately show ?thesis by simp
  qed
qed

function read_records ::
  "u8 list \<Rightarrow> ElfRel list \<Rightarrow> nat \<Rightarrow> nat \<Rightarrow> CieRecord list \<Rightarrow> FdeRecord list
     \<Rightarrow> ehframe_error + (CieRecord list \<times> FdeRecord list)" where
  "read_records contents rels off rel_idx cies fdes =
     (if length contents \<le> off then Inr (cies, fdes)
      else
        case read_record contents rels off rel_idx cies fdes of
          Inl e \<Rightarrow> Inl e
        | Inr None \<Rightarrow> Inr (cies, fdes)
        | Inr (Some (off', rel_idx', cies', fdes')) \<Rightarrow>
            read_records contents rels off' rel_idx' cies' fdes')"
  by pat_completeness auto
termination
  by (relation "measure (\<lambda>(contents, rels, off, rel_idx, cies, fdes). length contents - off)")
     (auto dest: read_record_advances)


declare scan_rels.simps [simp del] read_records.simps [simp del]

subsection \<open>What is said of an FDE\<close>











subsection \<open>The relocations of a record\<close>















end
